theory Spec2Isabelle
  imports Complex_Main "HOL-Library.Char_ord" "HOL-Library.List_Lexorder"
    "HOL-Library.Product_Lexorder"
begin

section \<open>Strings, characters and sets of the Python program\<close>

text \<open>
  The program \<^verbatim>\<open>password_tool.py\<close> works on Python strings. A Python string is modelled
  as a \<^typ>\<open>string\<close>, one \<^typ>\<open>char\<close> per code point, for the ASCII code points
  (below 128): on them \<^verbatim>\<open>str.lower\<close>, \<^verbatim>\<open>str.upper\<close>, \<^verbatim>\<open>\d\<close> and \<^verbatim>\<open>\s\<close> are the
  functions below, the order of strings is the order of their code points
  (\<^theory_text>\<open>Char_ord\<close>, \<^theory_text>\<open>List_Lexorder\<close>), and the order of Python tuples is the
  lexicographic order of pairs (\<^theory_text>\<open>Product_Lexorder\<close>).
  The leet expander is modelled a second time on lists of arbitrary code points, with
  \<^verbatim>\<open>str.lower\<close> as a parameter, and shown to agree with the first model on ASCII words.

  A Python \<^verbatim>\<open>set\<close> is modelled as a list without duplicates: \<^verbatim>\<open>s.add(x)\<close> is
  \<^const>\<open>List.insert\<close>, \<^verbatim>\<open>s |= t\<close> is \<^const>\<open>List.union\<close>, \<^verbatim>\<open>len(s)\<close> is
  \<^const>\<open>length\<close>. The order of the list carries no meaning. Where the program
  iterates over a set and the result can depend on the order of the iteration (the loop
  with \<^verbatim>\<open>break\<close> in \<^verbatim>\<open>generate_wordlist\<close>), that order is an explicit parameter
  of the model.
\<close>

definition is_upper_chr :: "char \<Rightarrow> bool" where
  "is_upper_chr c = (65 \<le> (of_char c :: nat) \<and> (of_char c :: nat) \<le> 90)"

definition is_lower_chr :: "char \<Rightarrow> bool" where
  "is_lower_chr c = (97 \<le> (of_char c :: nat) \<and> (of_char c :: nat) \<le> 122)"

definition is_cased_chr :: "char \<Rightarrow> bool" where
  "is_cased_chr c = (is_upper_chr c \<or> is_lower_chr c)"

definition is_digit_chr :: "char \<Rightarrow> bool" where
  "is_digit_chr c = (48 \<le> (of_char c :: nat) \<and> (of_char c :: nat) \<le> 57)"

text \<open>
  \<^verbatim>\<open>\s\<close> of a Python \<^verbatim>\<open>str\<close> pattern on ASCII: tab, newline, vertical tab, form feed,
  carriage return (9 to 13), the separators 28 to 31, and the space.
\<close>

definition is_space_chr :: "char \<Rightarrow> bool" where
  "is_space_chr c =
     (let n = (of_char c :: nat) in (9 \<le> n \<and> n \<le> 13) \<or> (28 \<le> n \<and> n \<le> 32))"

definition lower_chr :: "char \<Rightarrow> char" where
  "lower_chr c = (if is_upper_chr c then char_of ((of_char c :: nat) + 32) else c)"

definition upper_chr :: "char \<Rightarrow> char" where
  "upper_chr c = (if is_lower_chr c then char_of ((of_char c :: nat) - 32) else c)"

text \<open>\<^verbatim>\<open>word.lower()\<close> and \<^verbatim>\<open>word.upper()\<close>.\<close>

definition lower :: "string \<Rightarrow> string" where
  "lower w = map lower_chr w"

definition upper :: "string \<Rightarrow> string" where
  "upper w = map upper_chr w"

text \<open>\<^verbatim>\<open>word.capitalize()\<close>: the first character in upper case, the rest in lower case.\<close>

fun capitalize :: "string \<Rightarrow> string" where
  "capitalize [] = []"
| "capitalize (c # cs) = upper_chr c # lower cs"

text \<open>
  \<^verbatim>\<open>word.title()\<close>: a cased character that follows an uncased one (or starts the string)
  is put in upper case, a cased character that follows a cased one in lower case, every
  other character is kept. The flag says whether the previous character was cased.
\<close>

fun title_from :: "bool \<Rightarrow> string \<Rightarrow> string" where
  "title_from prev [] = []"
| "title_from prev (c # cs) =
     (if is_cased_chr c
      then (if prev then lower_chr c else upper_chr c) # title_from True cs
      else c # title_from False cs)"

definition title :: "string \<Rightarrow> string" where
  "title w = title_from False w"

section \<open>Strength analysis\<close>

text \<open>
  Python floats are idealised as real numbers: \<^verbatim>\<open>math.log2(94.0)\<close> is \<^term>\<open>log 2 94\<close> and
  the product and the comparisons are those of the reals.
\<close>

definition entropy_estimate :: "string \<Rightarrow> real" where
  "entropy_estimate password =
     (if password = [] then 0 else real (length password) * log 2 94)"

text \<open>
  The values of the dictionaries \<^verbatim>\<open>analyze_password\<close> reads and returns; a dictionary
  is an association list in the order of its keys.
\<close>

datatype json = JNone | JInt int | JFloat real | JStr string | JList "json list"
  | JDict "(string \<times> json) list"

type_synonym dict = "(string \<times> json) list"

text \<open>\<^verbatim>\<open>result.get(key)\<close> and \<^verbatim>\<open>result.get(key, {})\<close>.\<close>

definition dict_get :: "dict \<Rightarrow> string \<Rightarrow> json" where
  "dict_get d k = (case map_of d k of Some v \<Rightarrow> v | None \<Rightarrow> JNone)"

definition dict_get_or_empty :: "dict \<Rightarrow> string \<Rightarrow> json" where
  "dict_get_or_empty d k = (case map_of d k of Some v \<Rightarrow> v | None \<Rightarrow> JDict [])"

text \<open>The chain of comparisons that maps the estimate to a score in the fallback mode.\<close>

definition fallback_score :: "real \<Rightarrow> int" where
  "fallback_score ent =
     (if ent < 28 then 0
      else if ent < 36 then 1
      else if ent < 60 then 2
      else if ent < 80 then 3
      else 4)"

text \<open>\<^verbatim>\<open>round(ent, 2)\<close>, on the reals.\<close>

definition round2 :: "real \<Rightarrow> real" where
  "round2 x = real_of_int (round (x * 100)) / 100"

text \<open>The en dash of the first suggestion, as the three bytes of its UTF-8 encoding.\<close>

definition en_dash :: string where
  "en_dash = [char_of (226 :: nat), char_of (128 :: nat), char_of (147 :: nat)]"

text \<open>
  \<^verbatim>\<open>analyze_password\<close>. The first argument is the engine found at import time:
  \<^verbatim>\<open>ZXCVBN_AVAILABLE\<close> is true exactly when the import of \<^verbatim>\<open>zxcvbn\<close> succeeded, so
  \<open>None\<close> is the run without the engine. The engine is outside the program: it is any
  function that returns a dictionary or raises (\<open>Inl\<close>); an exception it raises passes
  through \<^verbatim>\<open>analyze_password\<close>.
\<close>

definition analyze_password ::
  "(string \<Rightarrow> string list \<Rightarrow> 'e + dict) option \<Rightarrow> string \<Rightarrow> string list option \<Rightarrow> 'e + dict" where
  "analyze_password engine password user_inputs =
     (let user_inputs = (case user_inputs of None \<Rightarrow> [] | Some hints \<Rightarrow> hints) in
      case engine of
        Some zxcvbn \<Rightarrow>
          (case zxcvbn password user_inputs of
             Inl e \<Rightarrow> Inl e
           | Inr result \<Rightarrow>
               Inr [(''engine'', JStr ''zxcvbn''),
                    (''score'', dict_get result ''score''),
                    (''crack_times_display'', dict_get_or_empty result ''crack_times_display''),
                    (''guesses_log10'', dict_get result ''guesses_log10''),
                    (''feedback'', dict_get_or_empty result ''feedback'')])
      | None \<Rightarrow>
          (let ent = entropy_estimate password;
               score = fallback_score ent
           in Inr [(''engine'', JStr ''entropy_fallback''),
                   (''score'', JInt score),
                   (''entropy_bits_est'', JFloat (round2 ent)),
                   (''feedback'', JDict
                      [(''warning'',
                          JStr ''Using fallback estimator. Install 'zxcvbn' for richer results.''),
                       (''suggestions'', JList
                          [JStr (''Use longer passphrases (3'' @ en_dash @ ''5+ random words).''),
                           JStr ''Avoid personal info and common patterns.'',
                           JStr ''Include variety (case, digits, symbols) but prioritize length.''])])]))"

section \<open>Wordlist generation utilities\<close>

text \<open>
  \<^verbatim>\<open>LEET_MAP\<close>, a dictionary from a letter to the list of its replacements, each a
  string. The association list keeps the order of the source.
\<close>

definition LEET_MAP :: "(char \<times> string list) list" where
  "LEET_MAP =
     [(CHR ''a'', [''a'', ''4'', ''@'']),
      (CHR ''e'', [''e'', ''3'']),
      (CHR ''i'', [''i'', ''1'', ''!'']),
      (CHR ''o'', [''o'', ''0'']),
      (CHR ''s'', [''s'', ''5'', ''$'']),
      (CHR ''t'', [''t'', ''7'']),
      (CHR ''g'', [''g'', ''9'']),
      (CHR ''b'', [''b'', ''8'']),
      (CHR ''l'', [''l'', ''1''])]"

text \<open>\<^verbatim>\<open>ch in LEET_MAP\<close> and \<^verbatim>\<open>LEET_MAP[ch]\<close> (read only for a key of the table).\<close>

definition in_leet_map :: "char \<Rightarrow> bool" where
  "in_leet_map ch = (map_of LEET_MAP ch \<noteq> None)"

definition leet_map :: "char \<Rightarrow> string list" where
  "leet_map ch = (case map_of LEET_MAP ch of Some alts \<Rightarrow> alts | None \<Rightarrow> [])"

text \<open>\<^verbatim>\<open>case_variants\<close>: the set of the word and its four casings.\<close>

definition case_variants :: "string \<Rightarrow> string list" where
  "case_variants word =
     List.insert (title word) (List.insert (capitalize word)
       (List.insert (upper word) (List.insert (lower word) [word])))"

text \<open>
  In \<^verbatim>\<open>leet_variants\<close>, \<^verbatim>\<open>positions\<close> lists the indices of \<^verbatim>\<open>word.lower()\<close> whose
  character is a key of the table, with that character.
\<close>

definition positions :: "string \<Rightarrow> (nat \<times> char) list" where
  "positions word = filter (\<lambda>(i, ch). in_leet_map ch) (enumerate 0 (lower word))"

text \<open>
  \<^verbatim>\<open>s = list(word)\<close> is a list of one-character strings, \<^verbatim>\<open>s[pos] = ...\<close> replaces one
  of them by a string of the table and \<^verbatim>\<open>"".join(s)\<close> concatenates them.
\<close>

definition chars_of :: "string \<Rightarrow> string list" where
  "chars_of word = map (\<lambda>c. [c]) word"

text \<open>
  The inner function \<^verbatim>\<open>apply_variant(mask)\<close>, without its effect on \<^verbatim>\<open>produced\<close>:
  the loop over \<^verbatim>\<open>zip(enumerate(positions), mask)\<close> and the joined string.
\<close>

fun apply_mask :: "string list \<Rightarrow> ((nat \<times> char) \<times> nat) list \<Rightarrow> string list" where
  "apply_mask s [] = s"
| "apply_mask s (((pos, ch), choice_idx) # rest) =
     apply_mask (s[pos := leet_map ch ! choice_idx]) rest"

definition apply_variant :: "string \<Rightarrow> nat list \<Rightarrow> string" where
  "apply_variant word msk = concat (apply_mask (chars_of word) (zip (positions word) msk))"

text \<open>
  The branch \<^verbatim>\<open>if not aggressive\<close>: for every position the indices
  \<^verbatim>\<open>range(1, min(len(LEET_MAP[ch]), 2))\<close>, each giving one string added to \<^verbatim>\<open>produced\<close>.
\<close>

definition single_subst :: "string \<Rightarrow> nat \<times> char \<Rightarrow> nat \<Rightarrow> string" where
  "single_subst word p choice_idx =
     concat ((chars_of word)[fst p := leet_map (snd p) ! choice_idx])"

fun basic_loop :: "string \<Rightarrow> (nat \<times> char) list \<Rightarrow> string list \<Rightarrow> string list" where
  "basic_loop word [] produced = produced"
| "basic_loop word (p # ps) produced =
     basic_loop word ps
       (fold (\<lambda>choice_idx acc. List.insert (single_subst word p choice_idx) acc)
          [1 ..< min (length (leet_map (snd p))) 2] produced)"

text \<open>
  The branch \<^verbatim>\<open>else\<close>: the loop over \<^verbatim>\<open>itertools.product(*rngs)\<close>, which adds the
  variant of the mask and leaves the loop when \<^verbatim>\<open>len(produced) >= cap\<close>.
\<close>

fun aggressive_loop :: "string \<Rightarrow> int \<Rightarrow> nat list list \<Rightarrow> string list \<Rightarrow> string list" where
  "aggressive_loop word cap [] produced = produced"
| "aggressive_loop word cap (msk # masks) produced =
     (let produced' = List.insert (apply_variant word msk) produced
      in if int (length produced') \<ge> cap then produced'
         else aggressive_loop word cap masks produced')"

definition rngs :: "string \<Rightarrow> nat list list" where
  "rngs word = map (\<lambda>(i, ch). [0 ..< min (length (leet_map ch)) 3]) (positions word)"

definition produced_of :: "string \<Rightarrow> bool \<Rightarrow> int \<Rightarrow> string list" where
  "produced_of word aggressive cap =
     (if \<not> aggressive then basic_loop word (positions word) []
      else aggressive_loop word cap (product_lists (rngs word)) [])"

definition leet_variants :: "string \<Rightarrow> bool \<Rightarrow> int \<Rightarrow> string list" where
  "leet_variants word aggressive cap =
     (if positions word = [] then [word]
      else List.union [word] (produced_of word aggressive cap))"

text \<open>
  \<^verbatim>\<open>parse_years\<close>. The pattern \<^verbatim>\<open>^\s*(\d{4})\s*-\s*(\d{4})\s*$\<close> of \<^verbatim>\<open>re.match\<close>:
  white space and digits are disjoint and the hyphen is neither, so the match is
  found without backtracking. The result is the two groups.
\<close>

definition match_range :: "string \<Rightarrow> (string \<times> string) option" where
  "match_range years =
     (let s1 = dropWhile is_space_chr years; g1 = take 4 s1;
          s2 = dropWhile is_space_chr (drop 4 s1)
      in if length g1 = 4 \<and> list_all is_digit_chr g1 then
           (case s2 of
              [] \<Rightarrow> None
            | c # s3 \<Rightarrow>
                if c = CHR ''-'' then
                  (let s4 = dropWhile is_space_chr s3; g2 = take 4 s4;
                       s5 = dropWhile is_space_chr (drop 4 s4)
                   in if length g2 = 4 \<and> list_all is_digit_chr g2 \<and> s5 = []
                      then Some (g1, g2) else None)
                else None)
         else None)"

text \<open>\<^verbatim>\<open>int(s)\<close> on a string of decimal digits, and \<^verbatim>\<open>str(y)\<close> on a natural number.\<close>

definition digit_val :: "char \<Rightarrow> nat" where
  "digit_val c = (of_char c :: nat) - 48"

definition int_of_digits :: "string \<Rightarrow> nat" where
  "int_of_digits s = foldl (\<lambda>a c. 10 * a + digit_val c) 0 s"

definition digit_chr :: "nat \<Rightarrow> char" where
  "digit_chr d = char_of (48 + d)"

fun str_nat :: "nat \<Rightarrow> string" where
  "str_nat n = (if n < 10 then [digit_chr n] else str_nat (n div 10) @ [digit_chr (n mod 10)])"

text \<open>\<^verbatim>\<open>years.strip()\<close> and \<^verbatim>\<open>re.split(r"[,\s]+", ...)\<close>, with the empty pieces it returns.\<close>

definition strip :: "string \<Rightarrow> string" where
  "strip s = rev (dropWhile is_space_chr (rev (dropWhile is_space_chr s)))"

definition is_sep_chr :: "char \<Rightarrow> bool" where
  "is_sep_chr c = (c = CHR '','' \<or> is_space_chr c)"

function re_split_from :: "string \<Rightarrow> string \<Rightarrow> string list" where
  "re_split_from cur [] = [rev cur]"
| "re_split_from cur (c # cs) =
     (if is_sep_chr c then rev cur # re_split_from [] (dropWhile is_sep_chr cs)
      else re_split_from (c # cur) cs)"
  by pat_completeness auto
termination
  by (relation "measure (\<lambda>(cur, s). length s)")
     (auto simp: less_Suc_eq_le length_dropWhile_le)

definition re_split :: "string \<Rightarrow> string list" where
  "re_split s = re_split_from [] s"

text \<open>\<^verbatim>\<open>y.isdigit()\<close>.\<close>

definition isdigit :: "string \<Rightarrow> bool" where
  "isdigit y = (y \<noteq> [] \<and> list_all is_digit_chr y)"

text \<open>
  \<^verbatim>\<open>re.findall(r"(\d{2,4})", dob)\<close>: from the left, a run of at least two digits gives
  its first four digits at most as a match and the scan goes on behind the match; a
  digit alone is passed over.
\<close>

function findall_d24 :: "string \<Rightarrow> string list" where
  "findall_d24 [] = []"
| "findall_d24 (c # cs) =
     (let run = takeWhile is_digit_chr (c # cs) in
      if length run \<ge> 2 then take 4 run # findall_d24 (drop (min 4 (length run)) (c # cs))
      else findall_d24 cs)"
  by pat_completeness auto
termination
  by (relation "measure length") auto

text \<open>\<^verbatim>\<open>re.findall(r"\d+", dob)\<close>: the maximal runs of digits.\<close>

function findall_digits :: "string \<Rightarrow> string list" where
  "findall_digits [] = []"
| "findall_digits (c # cs) =
     (if is_digit_chr c
      then (c # takeWhile is_digit_chr cs) # findall_digits (dropWhile is_digit_chr cs)
      else findall_digits cs)"
  by pat_completeness auto
termination
  by (relation "measure length") (auto simp: less_Suc_eq_le length_dropWhile_le)

text \<open>
  \<^verbatim>\<open>sorted(out)\<close> of a set of strings. The two arguments of \<^verbatim>\<open>parse_years\<close> are
  \<^verbatim>\<open>str | None\<close>; \<^verbatim>\<open>if years:\<close> holds for a string that is not empty.
\<close>

definition years_part :: "string option \<Rightarrow> string list" where
  "years_part years =
     (case years of
        None \<Rightarrow> []
      | Some ys \<Rightarrow>
          if ys = [] then []
          else (case match_range ys of
                  Some (g1, g2) \<Rightarrow>
                    fold (\<lambda>y out. List.insert (str_nat y) out)
                      [int_of_digits g1 ..< int_of_digits g2 + 1] []
                | None \<Rightarrow>
                    fold (\<lambda>y out. if isdigit y \<and> (length y = 2 \<or> length y = 4)
                                   then List.insert y out else out)
                      (re_split (strip ys)) []))"

definition dob_part :: "string option \<Rightarrow> string list \<Rightarrow> string list" where
  "dob_part dob out =
     (case dob of
        None \<Rightarrow> out
      | Some d \<Rightarrow>
          if d = [] then out
          else (let m = findall_d24 d; digits = concat m;
                    out1 = (if length digits \<ge> 8 then List.insert (take 8 digits) out else out)
                in fold (\<lambda>token out. if length token = 2 \<or> length token = 4
                                       then List.insert token out else out) m out1))"

definition parse_years :: "string option \<Rightarrow> string option \<Rightarrow> string list" where
  "parse_years years dob = sort (dob_part dob (years_part years))"

text \<open>\<^verbatim>\<open>build_bases\<close>.\<close>

definition build_bases :: "string list \<Rightarrow> string option \<Rightarrow> string list \<Rightarrow> string list" where
  "build_bases keywords dob separators =
     (let kws = filter (\<lambda>k. k \<noteq> []) keywords;
          bases1 = fold (\<lambda>w bases. fold List.insert (case_variants w) bases) kws [];
          bases2 =
            fold (\<lambda>sep bases.
              fold (\<lambda>i bases.
                fold (\<lambda>j bases.
                  List.insert (kws ! j @ sep @ kws ! i)
                    (List.insert (kws ! i @ sep @ kws ! j) bases))
                  [i + 1 ..< length kws] bases)
                [0 ..< length kws] bases)
              separators bases1
      in case dob of
           None \<Rightarrow> bases2
         | Some d \<Rightarrow> if d = [] then bases2 else fold List.insert (findall_digits d) bases2)"

text \<open>
  \<^verbatim>\<open>generate_wordlist\<close>. The loop over \<^verbatim>\<open>bases\<close> leaves when
  \<^verbatim>\<open>len(expanded) > max_candidates\<close>, so its result depends on the order in which the
  set is iterated.
\<close>

fun expand_loop :: "bool \<Rightarrow> int \<Rightarrow> string list \<Rightarrow> string list \<Rightarrow> string list" where
  "expand_loop aggressive max_candidates [] expanded = expanded"
| "expand_loop aggressive max_candidates (b # bs) expanded =
     (let expanded' = List.union (leet_variants b aggressive 12) expanded
      in if int (length expanded') > max_candidates then expanded'
         else expand_loop aggressive max_candidates bs expanded')"

definition maybe_add :: "string \<Rightarrow> string list \<Rightarrow> string list" where
  "maybe_add candidate out =
     (if 4 \<le> length candidate \<and> length candidate \<le> 64 then List.insert candidate out else out)"

text \<open>The four loops that fill \<^verbatim>\<open>out\<close>, in the order of the source.\<close>

definition combine :: "string list \<Rightarrow> string list \<Rightarrow> string list \<Rightarrow> string list" where
  "combine expanded years suffixes =
     (let out1 = fold maybe_add expanded [];
          out2 = fold (\<lambda>b out. fold (\<lambda>y out. maybe_add (y @ b) (maybe_add (b @ y) out)) years out)
                   expanded out1;
          out3 = fold (\<lambda>b out. fold (\<lambda>s out. maybe_add (b @ s) out) suffixes out) expanded out2
      in fold (\<lambda>b out. fold (\<lambda>y out. fold (\<lambda>s out. maybe_add (b @ y @ s) out) suffixes out)
                 years out) expanded out3)"

text \<open>\<^verbatim>\<open>xs[:n]\<close> for a Python integer: a negative \<^verbatim>\<open>n\<close> counts from the end.\<close>

definition slice_to :: "int \<Rightarrow> 'a list \<Rightarrow> 'a list" where
  "slice_to n xs = (if 0 \<le> n then take (nat n) xs else take (length xs - nat (- n)) xs)"

text \<open>The key \<^verbatim>\<open>lambda x: (len(x), x)\<close>.\<close>

definition sort_key_of :: "string \<Rightarrow> nat \<times> string" where
  "sort_key_of x = (length x, x)"

text \<open>
  The first argument is the order in which the run iterates over the set \<^verbatim>\<open>bases\<close>:
  a function from the set to the sequence of its elements.
\<close>

definition generate_wordlist ::
  "(string list \<Rightarrow> string list) \<Rightarrow> string list \<Rightarrow> string option \<Rightarrow> string list \<Rightarrow> string \<Rightarrow>
   string list \<Rightarrow> string list \<Rightarrow> int \<Rightarrow> string list" where
  "generate_wordlist iter keywords dob years leet_mode suffixes separators max_candidates =
     (let bases = build_bases keywords dob separators;
          aggressive = (lower leet_mode = ''aggressive'');
          expanded = expand_loop aggressive max_candidates (iter bases) [];
          out = combine expanded years suffixes
      in slice_to max_candidates (sort_key sort_key_of out))"

text \<open>An iteration order of sets lists the elements of the set, each once.\<close>

definition iteration_order :: "(string list \<Rightarrow> string list) \<Rightarrow> bool" where
  "iteration_order iter =
     (\<forall>xs. distinct xs \<longrightarrow> set (iter xs) = set xs \<and> distinct (iter xs))"

section \<open>The leet expander on strings of any code points\<close>

text \<open>
  \<^verbatim>\<open>leet_variants\<close> once more, for Python strings with code points beyond ASCII: a
  string is the list of its code points. \<^verbatim>\<open>word.lower()\<close> can be longer than \<^verbatim>\<open>word\<close>
  (the lower case of U+0130, code point 304, is the two code points 105 and 775), while
  \<^verbatim>\<open>positions\<close> is taken from \<^verbatim>\<open>word.lower()\<close> and \<^verbatim>\<open>s[pos] = ...\<close> writes into
  \<^verbatim>\<open>list(word)\<close>. The case tables of Unicode are not part of the program, so
  \<^verbatim>\<open>str.lower\<close> is the parameter \<open>lower_of\<close>. An assignment \<^verbatim>\<open>s[pos] = ...\<close> behind the
  end of the list raises \<^verbatim>\<open>IndexError\<close>, which leaves the function.
\<close>

datatype py_error = IndexError

type_synonym ustring = "nat list"

text \<open>
  \<^verbatim>\<open>ch in LEET_MAP\<close> and \<^verbatim>\<open>LEET_MAP[ch]\<close> for a code point: the keys of the table are
  ASCII letters.
\<close>

definition in_leet_map_u :: "nat \<Rightarrow> bool" where
  "in_leet_map_u ch = (ch < 256 \<and> in_leet_map (char_of ch))"

definition leet_map_u :: "nat \<Rightarrow> ustring list" where
  "leet_map_u ch = map (map (of_char :: char \<Rightarrow> nat)) (leet_map (char_of ch))"

definition positions_u :: "(ustring \<Rightarrow> ustring) \<Rightarrow> ustring \<Rightarrow> (nat \<times> nat) list" where
  "positions_u lower_of word =
     filter (\<lambda>(i, ch). in_leet_map_u ch) (enumerate 0 (lower_of word))"

definition chars_of_u :: "ustring \<Rightarrow> ustring list" where
  "chars_of_u word = map (\<lambda>c. [c]) word"

text \<open>\<^verbatim>\<open>s[pos] = v\<close> on a Python list.\<close>

definition set_item :: "'a list \<Rightarrow> nat \<Rightarrow> 'a \<Rightarrow> py_error + 'a list" where
  "set_item s pos v = (if pos < length s then Inr (s[pos := v]) else Inl IndexError)"

fun apply_mask_u :: "ustring list \<Rightarrow> ((nat \<times> nat) \<times> nat) list \<Rightarrow> py_error + ustring list" where
  "apply_mask_u s [] = Inr s"
| "apply_mask_u s (((pos, ch), choice_idx) # rest) =
     (case set_item s pos (leet_map_u ch ! choice_idx) of
        Inl e \<Rightarrow> Inl e
      | Inr s' \<Rightarrow> apply_mask_u s' rest)"

definition apply_variant_u ::
  "(ustring \<Rightarrow> ustring) \<Rightarrow> ustring \<Rightarrow> nat list \<Rightarrow> py_error + ustring" where
  "apply_variant_u lower_of word msk =
     (case apply_mask_u (chars_of_u word) (zip (positions_u lower_of word) msk) of
        Inl e \<Rightarrow> Inl e
      | Inr s \<Rightarrow> Inr (concat s))"

text \<open>
  The branch \<^verbatim>\<open>if not aggressive\<close>: the inner loop over the indices of one position,
  then the loop over the positions.
\<close>

fun subst_loop_u ::
  "ustring \<Rightarrow> nat \<times> nat \<Rightarrow> nat list \<Rightarrow> ustring list \<Rightarrow> py_error + ustring list" where
  "subst_loop_u word p [] produced = Inr produced"
| "subst_loop_u word p (choice_idx # rest) produced =
     (case set_item (chars_of_u word) (fst p) (leet_map_u (snd p) ! choice_idx) of
        Inl e \<Rightarrow> Inl e
      | Inr s \<Rightarrow> subst_loop_u word p rest (List.insert (concat s) produced))"

fun basic_loop_u ::
  "ustring \<Rightarrow> (nat \<times> nat) list \<Rightarrow> ustring list \<Rightarrow> py_error + ustring list" where
  "basic_loop_u word [] produced = Inr produced"
| "basic_loop_u word (p # ps) produced =
     (case subst_loop_u word p [1 ..< min (length (leet_map_u (snd p))) 2] produced of
        Inl e \<Rightarrow> Inl e
      | Inr produced' \<Rightarrow> basic_loop_u word ps produced')"

text \<open>The branch \<^verbatim>\<open>else\<close>, with the test of the cap after each variant.\<close>

fun aggressive_loop_u ::
  "(ustring \<Rightarrow> ustring) \<Rightarrow> ustring \<Rightarrow> int \<Rightarrow> nat list list \<Rightarrow> ustring list \<Rightarrow>
   py_error + ustring list" where
  "aggressive_loop_u lower_of word cap [] produced = Inr produced"
| "aggressive_loop_u lower_of word cap (msk # masks) produced =
     (case apply_variant_u lower_of word msk of
        Inl e \<Rightarrow> Inl e
      | Inr v \<Rightarrow>
          (let produced' = List.insert v produced
           in if int (length produced') \<ge> cap then Inr produced'
              else aggressive_loop_u lower_of word cap masks produced'))"

definition rngs_u :: "(ustring \<Rightarrow> ustring) \<Rightarrow> ustring \<Rightarrow> nat list list" where
  "rngs_u lower_of word =
     map (\<lambda>(i, ch). [0 ..< min (length (leet_map_u ch)) 3]) (positions_u lower_of word)"

definition leet_variants_u ::
  "(ustring \<Rightarrow> ustring) \<Rightarrow> ustring \<Rightarrow> bool \<Rightarrow> int \<Rightarrow> py_error + ustring list" where
  "leet_variants_u lower_of word aggressive cap =
     (if positions_u lower_of word = [] then Inr [word]
      else (case (if \<not> aggressive then basic_loop_u word (positions_u lower_of word) []
                  else aggressive_loop_u lower_of word cap
                         (product_lists (rngs_u lower_of word)) []) of
              Inl e \<Rightarrow> Inl e
            | Inr produced \<Rightarrow> Inr (List.union [word] produced)))"

section \<open>Auxiliary notions of the proofs\<close>

text \<open>A list of strings of one character each, as \<^verbatim>\<open>list(word)\<close> is.\<close>

definition unit_strings :: "string list \<Rightarrow> bool" where
  "unit_strings s = list_all (\<lambda>x. length x = 1) s"

text \<open>A position with an index that \<^verbatim>\<open>LEET_MAP[ch][choice_idx]\<close> can read.\<close>

definition valid_choice :: "(nat \<times> char) \<times> nat \<Rightarrow> bool" where
  "valid_choice z = (in_leet_map (snd (fst z)) \<and> snd z < length (leet_map (snd (fst z))))"

text \<open>
  The set \<^verbatim>\<open>produced\<close> after the masks of a list have all been applied, with no test
  of the cap: what the aggressive loop has built when it has gone through these masks.
\<close>

definition produced_after :: "string \<Rightarrow> nat list list \<Rightarrow> string list \<Rightarrow> string list" where
  "produced_after word masks produced =
     fold (\<lambda>msk produced. List.insert (apply_variant word msk) produced) masks produced"

text \<open>The length window of \<^verbatim>\<open>maybe_add\<close>.\<close>

definition in_window :: "string \<Rightarrow> bool" where
  "in_window c = (4 \<le> length c \<and> length c \<le> 64)"

text \<open>
  The strings the four loops of \<^verbatim>\<open>generate_wordlist\<close> offer to \<^verbatim>\<open>maybe_add\<close>: the
  expanded bases, base + year, year + base, base + suffix and base + year + suffix.
\<close>

definition candidates :: "string list \<Rightarrow> string list \<Rightarrow> string list \<Rightarrow> string set" where
  "candidates expanded years suffixes =
     set expanded
     \<union> (\<Union>b\<in>set expanded. \<Union>y\<in>set years. {b @ y, y @ b})
     \<union> (\<Union>b\<in>set expanded. \<Union>s\<in>set suffixes. {b @ s})
     \<union> (\<Union>b\<in>set expanded. \<Union>y\<in>set years. \<Union>s\<in>set suffixes. {b @ y @ s})"

text \<open>The invariant of the set \<^verbatim>\<open>out\<close>: no duplicate, every element in the window.\<close>

definition good_out :: "string list \<Rightarrow> bool" where
  "good_out out = (distinct out \<and> list_all in_window out)"

text \<open>The code points of a string of the ASCII model.\<close>

definition enc :: "string \<Rightarrow> ustring" where
  "enc w = map (of_char :: char \<Rightarrow> nat) w"

text \<open>
  A function that agrees with \<^verbatim>\<open>str.lower\<close> on the two strings U+0130 \<^verbatim>\<open>b\<close> and
  U+0130 \<^verbatim>\<open>ax\<close>.
\<close>

definition dotted_I_lower :: "ustring \<Rightarrow> ustring" where
  "dotted_I_lower w = (if w = [304, 98] then [105, 775, 98] else [105, 775, 97, 120])"

section \<open>The table and the positions\<close>

lemma in_leet_map_cases:
  "in_leet_map ch \<longleftrightarrow> ch \<in> {CHR ''a'', CHR ''e'', CHR ''i'', CHR ''o'', CHR ''s'', CHR ''t'', CHR ''g'', CHR ''b'', CHR ''l''}"
  by (auto simp: in_leet_map_def LEET_MAP_def split: if_splits)

lemma leet_map_singletons:
  "in_leet_map ch \<Longrightarrow> s \<in> set (leet_map ch) \<Longrightarrow> length s = 1"
  by (auto simp: in_leet_map_cases leet_map_def LEET_MAP_def)

lemma leet_map_length:
  "in_leet_map ch \<Longrightarrow> 2 \<le> length (leet_map ch)"
  by (auto simp: in_leet_map_cases leet_map_def LEET_MAP_def)

lemma leet_map_first:
  "in_leet_map ch \<Longrightarrow> leet_map ch ! 0 = [ch]"
  by (auto simp: in_leet_map_cases leet_map_def LEET_MAP_def)

lemma leet_map_second_digit:
  "in_leet_map ch \<Longrightarrow> \<exists>d. leet_map ch ! 1 = [d] \<and> is_digit_chr d"
  by (auto simp: in_leet_map_cases leet_map_def LEET_MAP_def is_digit_chr_def)

lemma digit_not_in_leet_map:
  "is_digit_chr c \<Longrightarrow> \<not> in_leet_map (lower_chr c)"
  by (auto simp: in_leet_map_cases is_digit_chr_def lower_chr_def is_upper_chr_def)

lemma positions_iff:
  "(i, ch) \<in> set (positions word) \<longleftrightarrow>
     i < length word \<and> ch = lower_chr (word ! i) \<and> in_leet_map ch"
  by (auto simp: positions_def in_set_enumerate_eq lower_def)

lemma unit_strings_chars_of: "unit_strings (chars_of word)"
  by (simp add: unit_strings_def chars_of_def list_all_iff)

lemma unit_strings_update:
  "unit_strings s \<Longrightarrow> length x = 1 \<Longrightarrow> unit_strings (s[i := x])"
  by (auto simp: unit_strings_def list_all_iff dest!: set_update_subset_insert[THEN subsetD])

lemma unit_strings_concat: "unit_strings s \<Longrightarrow> length (concat s) = length s"
  by (induction s) (auto simp: unit_strings_def)

lemma leet_map_nth_length:
  "in_leet_map ch \<Longrightarrow> k < length (leet_map ch) \<Longrightarrow> length (leet_map ch ! k) = 1"
  by (simp add: leet_map_singletons)

lemma apply_mask_unit:
  "unit_strings s \<Longrightarrow> list_all valid_choice zs \<Longrightarrow>
     unit_strings (apply_mask s zs) \<and> length (apply_mask s zs) = length s"
proof (induction s zs rule: apply_mask.induct)
  case (1 s)
  then show ?case by simp
next
  case (2 s pos ch choice_idx rest)
  from "2.prems" have "length (leet_map ch ! choice_idx) = 1"
    by (simp add: valid_choice_def leet_map_nth_length)
  with "2.prems" have "unit_strings (s[pos := leet_map ch ! choice_idx])"
    by (simp add: unit_strings_update)
  with "2.IH" "2.prems" show ?case by simp
qed

lemma mask_valid:
  assumes "msk \<in> set (product_lists (rngs word))"
  shows "list_all valid_choice (zip (positions word) msk)"
proof -
  from assms have l2: "list_all2 (\<lambda>x ys. x \<in> set ys) msk (rngs word)"
    by (simp add: product_lists_set)
  then have len: "length msk = length (positions word)"
    by (auto simp: rngs_def dest: list_all2_lengthD)
  have "valid_choice z" if "z \<in> set (zip (positions word) msk)" for z
  proof -
    from that obtain k where k: "k < length msk" "z = (positions word ! k, msk ! k)"
      by (auto simp: set_zip len)
    obtain i ch where p: "positions word ! k = (i, ch)" by (cases "positions word ! k")
    from k len have "(i, ch) \<in> set (positions word)"
      by (metis nth_mem p)
    then have lm: "in_leet_map ch" by (auto simp: positions_iff)
    from l2 k(1) have "msk ! k \<in> set (rngs word ! k)"
      by (rule list_all2_nthD)
    with k len p have "msk ! k < length (leet_map ch)"
      by (simp add: rngs_def)
    with lm k p show ?thesis by (simp add: valid_choice_def)
  qed
  then show ?thesis by (simp add: list_all_iff)
qed

lemma apply_variant_length:
  "msk \<in> set (product_lists (rngs word)) \<Longrightarrow> length (apply_variant word msk) = length word"
  using apply_mask_unit[OF unit_strings_chars_of mask_valid, of msk word word]
  by (simp add: apply_variant_def unit_strings_concat chars_of_def)

lemma single_subst_eq:
  assumes "in_leet_map ch" "leet_map ch ! 1 = [d]"
  shows "single_subst word (i, ch) 1 = word[i := d]"
proof -
  have "(map (\<lambda>c. [c]) word)[i := [d]] = map (\<lambda>c. [c]) (word[i := d])"
    by (simp add: map_update)
  with assms show ?thesis by (simp add: single_subst_def chars_of_def)
qed

lemma basic_range: "in_leet_map ch \<Longrightarrow> [Suc 0 ..< min (length (leet_map ch)) 2] = [Suc 0]"
  using leet_map_length[of ch] by (simp add: min_def upt_rec)

lemma basic_loop_set:
  "list_all (\<lambda>p. in_leet_map (snd p)) ps \<Longrightarrow>
     set (basic_loop word ps produced) = set produced \<union> (\<lambda>p. single_subst word p 1) ` set ps"
proof (induction ps arbitrary: produced)
  case Nil
  then show ?case by simp
next
  case (Cons p ps)
  from Cons.prems have "[Suc 0 ..< min (length (leet_map (snd p))) 2] = [Suc 0]"
    by (simp add: basic_range)
  with Cons show ?case by auto
qed

lemma basic_loop_distinct:
  "distinct produced \<Longrightarrow> distinct (basic_loop word ps produced)"
proof (induction ps arbitrary: produced)
  case Nil
  then show ?case by simp
next
  case (Cons p ps)
  have "distinct (fold (\<lambda>k acc. List.insert (single_subst word p k) acc) ks produced)" for ks
    using Cons.prems by (induction ks arbitrary: produced) auto
  then show ?case by (simp add: Cons.IH)
qed

lemma positions_all: "list_all (\<lambda>p. in_leet_map (snd p)) (positions word)"
  by (auto simp: list_all_iff positions_iff)

lemma produced_after_simps:
  "produced_after word [] produced = produced"
  "produced_after word (msk # masks) produced =
     produced_after word masks (List.insert (apply_variant word msk) produced)"
  by (simp_all add: produced_after_def)

lemma length_insert_le: "length (List.insert x xs) \<le> Suc (length xs)"
  by (simp add: List.insert_def)

lemma aggressive_loop_distinct:
  "distinct produced \<Longrightarrow> distinct (aggressive_loop word cap masks produced)"
  by (induction masks arbitrary: produced) (auto simp: Let_def)

lemma aggressive_loop_set:
  "set (aggressive_loop word cap masks produced)
     \<subseteq> set produced \<union> apply_variant word ` set masks"
proof (induction masks arbitrary: produced)
  case Nil
  then show ?case by simp
next
  case (Cons msk masks)
  show ?case
    using Cons.IH[of "List.insert (apply_variant word msk) produced"]
    by (auto simp: Let_def)
qed

lemma aggressive_loop_length:
  "int (length produced) < cap \<Longrightarrow>
     int (length (aggressive_loop word cap masks produced)) \<le> cap"
proof (induction masks arbitrary: produced)
  case Nil
  then show ?case by simp
next
  case (Cons msk masks)
  let ?p = "List.insert (apply_variant word msk) produced"
  have le: "length ?p \<le> Suc (length produced)" by (rule length_insert_le)
  show ?case
  proof (cases "cap \<le> int (length ?p)")
    case True
    with le Cons.prems have "int (length ?p) = cap" by linarith
    with True show ?thesis by (simp add: Let_def)
  next
    case False
    then have "int (length ?p) < cap" by simp
    from Cons.IH[OF this] False show ?thesis by (simp add: Let_def)
  qed
qed

lemma aggressive_loop_stops:
  "int (length produced) < cap \<Longrightarrow>
   \<exists>k\<le>length masks.
      aggressive_loop word cap masks produced = produced_after word (take k masks) produced
    \<and> (\<forall>j<k. int (length (produced_after word (take j masks) produced)) < cap)
    \<and> (k < length masks \<longrightarrow> int (length (aggressive_loop word cap masks produced)) = cap)"
proof (induction masks arbitrary: produced)
  case Nil
  then show ?case by (simp add: produced_after_simps)
next
  case (Cons msk masks)
  let ?p = "List.insert (apply_variant word msk) produced"
  have le: "length ?p \<le> Suc (length produced)" by (rule length_insert_le)
  show ?case
  proof (cases "cap \<le> int (length ?p)")
    case True
    with le Cons.prems have eq: "int (length ?p) = cap" by linarith
    have "aggressive_loop word cap (msk # masks) produced = ?p"
      using True by (simp add: Let_def)
    moreover have "produced_after word (take (Suc 0) (msk # masks)) produced = ?p"
      by (simp add: produced_after_simps)
    moreover have "\<forall>j<Suc 0. int (length (produced_after word (take j (msk # masks)) produced)) < cap"
      using Cons.prems by (simp add: produced_after_simps)
    ultimately show ?thesis using eq
      by (intro exI[of _ "Suc 0"]) simp
  next
    case False
    then have small: "int (length ?p) < cap" by simp
    from Cons.IH[OF small] obtain k where k: "k \<le> length masks"
      "aggressive_loop word cap masks ?p = produced_after word (take k masks) ?p"
      "\<forall>j<k. int (length (produced_after word (take j masks) ?p)) < cap"
      "k < length masks \<longrightarrow> int (length (aggressive_loop word cap masks ?p)) = cap"
      by blast
    have loop: "aggressive_loop word cap (msk # masks) produced = aggressive_loop word cap masks ?p"
      using False by (simp add: Let_def)
    have "\<forall>j<Suc k. int (length (produced_after word (take j (msk # masks)) produced)) < cap"
    proof (intro allI impI)
      fix j assume "j < Suc k"
      then show "int (length (produced_after word (take j (msk # masks)) produced)) < cap"
        using k(3) Cons.prems by (cases j) (simp_all add: produced_after_simps)
    qed
    with k loop show ?thesis
      by (intro exI[of _ "Suc k"]) (simp add: produced_after_simps)
  qed
qed

lemma insert_word_length: "length (List.union [word] produced) \<le> Suc (length produced)"
  by (simp add: List.union_def length_insert_le)

lemma produced_of_distinct: "distinct (produced_of word aggressive cap)"
  by (simp add: produced_of_def basic_loop_distinct aggressive_loop_distinct)

lemma leet_variants_distinct: "distinct (leet_variants word aggressive cap)"
  by (simp add: leet_variants_def produced_of_distinct)

lemma leet_variants_set:
  "set (leet_variants word aggressive cap) =
     (if positions word = [] then {word} else insert word (set (produced_of word aggressive cap)))"
  by (simp add: leet_variants_def)

lemma produced_basic_set:
  "set (produced_of word False cap) = (\<lambda>p. single_subst word p 1) ` set (positions word)"
  by (simp add: produced_of_def basic_loop_set[OF positions_all])

lemma single_subst_position:
  assumes "(i, ch) \<in> set (positions word)"
  shows "\<exists>d. leet_map ch ! 1 = [d] \<and> d \<noteq> word ! i \<and> single_subst word (i, ch) 1 = word[i := d]"
proof -
  from assms have i: "i < length word" and ch: "ch = lower_chr (word ! i)" and lm: "in_leet_map ch"
    by (auto simp: positions_iff)
  from leet_map_second_digit[OF lm] obtain d where d: "leet_map ch ! 1 = [d]" "is_digit_chr d"
    by blast
  have "d \<noteq> word ! i"
  proof
    assume "d = word ! i"
    with d(2) have "\<not> in_leet_map (lower_chr (word ! i))" by (simp add: digit_not_in_leet_map)
    with lm ch show False by simp
  qed
  with d(1) single_subst_eq[OF lm d(1)] show ?thesis by blast
qed

lemma leet_variants_length:
  assumes "v \<in> set (leet_variants word aggressive cap)"
  shows "length v = length word"
proof (cases "v = word \<or> positions word = []")
  case True
  with assms show ?thesis by (auto simp: leet_variants_set)
next
  case False
  with assms have v: "v \<in> set (produced_of word aggressive cap)"
    by (auto simp: leet_variants_set)
  show ?thesis
  proof (cases aggressive)
    case True
    with v aggressive_loop_set[of word cap "product_lists (rngs word)" "[]"]
    obtain msk where "msk \<in> set (product_lists (rngs word))" "v = apply_variant word msk"
      by (auto simp: produced_of_def)
    then show ?thesis by (simp add: apply_variant_length)
  next
    case False
    with v obtain i ch where p: "(i, ch) \<in> set (positions word)" "v = single_subst word (i, ch) 1"
      by (auto simp: produced_basic_set)
    from single_subst_position[OF p(1)] p(2) show ?thesis by auto
  qed
qed

lemma leet_table_single_chars:
  "list_all (\<lambda>(ch, alts). list_all (\<lambda>s. length s = 1) alts) LEET_MAP"
  by (simp add: LEET_MAP_def)

text \<open>
  Claim C10. Every string of \<^verbatim>\<open>leet_variants(w, mode, cap)\<close> has the length of \<^verbatim>\<open>w\<close>,
  in both modes and for every cap, and every replacement of \<^verbatim>\<open>LEET_MAP\<close> is a string of
  one character.
\<close>

theorem leet_variants_same_length:
  "list_all (\<lambda>(ch, alts). list_all (\<lambda>s. length s = 1) alts) LEET_MAP \<and>
   (\<forall>v \<in> set (leet_variants word aggressive cap). length v = length word)"
  using leet_table_single_chars leet_variants_length by blast

lemma positions_distinct: "distinct (positions word)"
  by (simp add: positions_def distinct_enumerate)

lemma single_subst_inj: "inj_on (\<lambda>p. single_subst word p 1) (set (positions word))"
proof (rule inj_onI)
  fix p q
  assume p: "p \<in> set (positions word)" and q: "q \<in> set (positions word)"
    and eq: "single_subst word p 1 = single_subst word q 1"
  obtain i ch where pi: "p = (i, ch)" by (cases p)
  obtain j ch' where qj: "q = (j, ch')" by (cases q)
  from p pi single_subst_position[of i ch word] obtain d where
    d: "d \<noteq> word ! i" "single_subst word (i, ch) 1 = word[i := d]" by auto
  from q qj single_subst_position[of j ch' word] obtain e where
    e: "e \<noteq> word ! j" "single_subst word (j, ch') 1 = word[j := e]" by auto
  from p pi have i: "i < length word" "ch = lower_chr (word ! i)" by (auto simp: positions_iff)
  from q qj have j: "j < length word" "ch' = lower_chr (word ! j)" by (auto simp: positions_iff)
  from eq pi qj d e have upd: "word[i := d] = word[j := e]" by simp
  have "i = j"
  proof (rule ccontr)
    assume "i \<noteq> j"
    then have "word[j := e] ! i = word ! i" by simp
    moreover from i have "word[i := d] ! i = d" by simp
    ultimately show False using upd d(1) by simp
  qed
  with i j pi qj show "p = q" by simp
qed

lemma word_not_produced_basic: "word \<notin> set (produced_of word False cap)"
proof
  assume "word \<in> set (produced_of word False cap)"
  then obtain i ch where p: "(i, ch) \<in> set (positions word)" "word = single_subst word (i, ch) 1"
    by (auto simp: produced_basic_set)
  from single_subst_position[OF p(1)] p(2) obtain d where
    d: "d \<noteq> word ! i" "word = word[i := d]" by auto
  from p(1) have "i < length word" by (simp add: positions_iff)
  then have "word[i := d] ! i = d" by simp
  with d show False by simp
qed

lemma produced_basic_length:
  "length (produced_of word False cap) = length (positions word)"
proof -
  have "length (produced_of word False cap) = card (set (produced_of word False cap))"
    by (simp add: distinct_card produced_of_distinct)
  also have "\<dots> = card (set (positions word))"
    using card_image[OF single_subst_inj, of word] by (simp add: produced_basic_set)
  also have "\<dots> = length (positions word)"
    by (simp add: distinct_card positions_distinct)
  finally show ?thesis .
qed

lemma leet_variants_basic_length:
  "length (leet_variants word False cap) = Suc (length (positions word))"
proof (cases "positions word = []")
  case True
  then show ?thesis by (simp add: leet_variants_def)
next
  case False
  then show ?thesis
    using word_not_produced_basic[of word cap]
    by (simp add: leet_variants_def List.union_def List.insert_def produced_basic_length)
qed

lemma basic_variant_shape:
  assumes "(pos, ch) \<in> set (positions word)" and "v = single_subst word (pos, ch) 1"
  shows "pos < length word \<and> in_leet_map (lower_chr (word ! pos)) \<and> length v = length word \<and>
         [v ! pos] = leet_map (lower_chr (word ! pos)) ! 1 \<and> v ! pos \<noteq> word ! pos \<and>
         (\<forall>i<length word. i \<noteq> pos \<longrightarrow> v ! i = word ! i)"
proof -
  from assms(1) have i: "pos < length word" "ch = lower_chr (word ! pos)" "in_leet_map ch"
    by (auto simp: positions_iff)
  from single_subst_position[OF assms(1)] assms(2) obtain d where
    d: "leet_map ch ! 1 = [d]" "d \<noteq> word ! pos" "v = word[pos := d]" by auto
  with i show ?thesis by simp
qed

text \<open>
  On the words of ASCII characters, in the mode that is not aggressive, the result
  contains the word; every other element has the length of the word and differs from it
  at exactly one position, whose letter is a key of the table and is replaced by the
  second entry of its list; every such position has its variant; and the variants are as
  many as the positions. The last section shows that this fails on the program for a
  word whose lower case is longer than the word.
\<close>

theorem leet_variants_basic:
  "word \<in> set (leet_variants word False cap) \<and>
   (\<forall>v \<in> set (leet_variants word False cap). v \<noteq> word \<longrightarrow>
      (\<exists>pos<length word. in_leet_map (lower_chr (word ! pos)) \<and> length v = length word \<and>
         [v ! pos] = leet_map (lower_chr (word ! pos)) ! 1 \<and> v ! pos \<noteq> word ! pos \<and>
         (\<forall>i<length word. i \<noteq> pos \<longrightarrow> v ! i = word ! i))) \<and>
   (\<forall>pos<length word. in_leet_map (lower_chr (word ! pos)) \<longrightarrow>
      (\<exists>v \<in> set (leet_variants word False cap). length v = length word \<and>
         [v ! pos] = leet_map (lower_chr (word ! pos)) ! 1 \<and>
         (\<forall>i<length word. i \<noteq> pos \<longrightarrow> v ! i = word ! i))) \<and>
   length (leet_variants word False cap) = Suc (length (positions word))"
proof (intro conjI ballI allI impI)
  show "word \<in> set (leet_variants word False cap)"
    by (simp add: leet_variants_set)
next
  fix v assume v: "v \<in> set (leet_variants word False cap)" "v \<noteq> word"
  then obtain pos ch where p: "(pos, ch) \<in> set (positions word)" "v = single_subst word (pos, ch) 1"
    by (auto simp: leet_variants_set produced_basic_set split: if_splits)
  from basic_variant_shape[OF p] show
    "\<exists>pos<length word. in_leet_map (lower_chr (word ! pos)) \<and> length v = length word \<and>
         [v ! pos] = leet_map (lower_chr (word ! pos)) ! 1 \<and> v ! pos \<noteq> word ! pos \<and>
         (\<forall>i<length word. i \<noteq> pos \<longrightarrow> v ! i = word ! i)"
    by blast
next
  fix pos assume pos: "pos < length word" "in_leet_map (lower_chr (word ! pos))"
  then have p: "(pos, lower_chr (word ! pos)) \<in> set (positions word)"
    by (simp add: positions_iff)
  then have ne: "positions word \<noteq> []" by auto
  let ?v = "single_subst word (pos, lower_chr (word ! pos)) 1"
  from p ne have "?v \<in> set (leet_variants word False cap)"
    by (auto simp: leet_variants_set produced_basic_set)
  with basic_variant_shape[OF p refl] show
    "\<exists>v \<in> set (leet_variants word False cap). length v = length word \<and>
         [v ! pos] = leet_map (lower_chr (word ! pos)) ! 1 \<and>
         (\<forall>i<length word. i \<noteq> pos \<longrightarrow> v ! i = word ! i)"
    by blast
next
  show "length (leet_variants word False cap) = Suc (length (positions word))"
    by (rule leet_variants_basic_length)
qed

text \<open>
  Claim C4, for a cap of at least 1. The aggressive loop stops at the first mask after
  which \<^verbatim>\<open>produced\<close> has \<^verbatim>\<open>cap\<close> elements: its result is what a prefix of the masks
  produces, no shorter prefix reaches the cap, and when masks are left over the result
  has exactly \<^verbatim>\<open>cap\<close> elements. So \<^verbatim>\<open>produced\<close> has at most \<^verbatim>\<open>cap\<close> elements and the
  returned set at most \<^verbatim>\<open>cap + 1\<close>.
\<close>

theorem leet_variants_aggressive_cap:
  assumes "1 \<le> cap"
  shows "(\<exists>k\<le>length (product_lists (rngs word)).
            produced_of word True cap = produced_after word (take k (product_lists (rngs word))) []
          \<and> (\<forall>j<k. int (length (produced_after word (take j (product_lists (rngs word))) [])) < cap)
          \<and> (k < length (product_lists (rngs word)) \<longrightarrow>
                int (length (produced_of word True cap)) = cap))
       \<and> distinct (produced_of word True cap)
       \<and> int (length (produced_of word True cap)) \<le> cap
       \<and> distinct (leet_variants word True cap)
       \<and> int (length (leet_variants word True cap)) \<le> cap + 1"
proof -
  from assms have small: "int (length ([] :: string list)) < cap" by simp
  have stops: "\<exists>k\<le>length (product_lists (rngs word)).
            produced_of word True cap = produced_after word (take k (product_lists (rngs word))) []
          \<and> (\<forall>j<k. int (length (produced_after word (take j (product_lists (rngs word))) [])) < cap)
          \<and> (k < length (product_lists (rngs word)) \<longrightarrow>
                int (length (produced_of word True cap)) = cap)"
    using aggressive_loop_stops[OF small, of "product_lists (rngs word)" word]
    by (simp add: produced_of_def)
  have len: "int (length (produced_of word True cap)) \<le> cap"
    using aggressive_loop_length[OF small, of word "product_lists (rngs word)"]
    by (simp add: produced_of_def)
  have "int (length (leet_variants word True cap)) \<le> cap + 1"
  proof (cases "positions word = []")
    case True
    with assms show ?thesis by (simp add: leet_variants_def)
  next
    case False
    with len insert_word_length[of word "produced_of word True cap"] show ?thesis
      by (simp add: leet_variants_def)
  qed
  with stops len show ?thesis
    by (simp add: produced_of_distinct leet_variants_distinct)
qed

lemma leet_naman_basic: "leet_variants ''naman'' False 12 = [''naman'', ''nam4n'', ''n4man'']"
  by code_simp

lemma leet_Nab_aggressive: "leet_variants ''Nab'' True 3 = [''N4b'', ''Na8'', ''Nab'']"
  by code_simp

theorem leet_variants_same_length_witness:
  "''nam4n'' \<in> set (leet_variants ''naman'' False 12) \<and> length ''nam4n'' = length ''naman'' \<and>
   ''N4b'' \<in> set (leet_variants ''Nab'' True 3) \<and> length ''N4b'' = length ''Nab''"
proof -
  have m1: "''nam4n'' \<in> set (leet_variants ''naman'' False 12)"
    by (simp add: leet_naman_basic)
  have m2: "''N4b'' \<in> set (leet_variants ''Nab'' True 3)"
    by (simp add: leet_Nab_aggressive)
  from leet_variants_same_length[of "''naman''" False 12] m1
  have "length ''nam4n'' = length ''naman''" by blast
  moreover from leet_variants_same_length[of "''Nab''" True 3] m2
  have "length ''N4b'' = length ''Nab''" by blast
  ultimately show ?thesis using m1 m2 by blast
qed

theorem leet_variants_basic_witness:
  "''nam4n'' \<in> set (leet_variants ''naman'' False 12) \<and> ''nam4n'' \<noteq> ''naman'' \<and>
   (\<exists>pos<length ''naman''. in_leet_map (lower_chr (''naman'' ! pos)) \<and>
      [''nam4n'' ! pos] = leet_map (lower_chr (''naman'' ! pos)) ! 1) \<and>
   length (leet_variants ''naman'' False 12) = Suc (length (positions ''naman''))"
proof -
  note th = leet_variants_basic[of "''naman''" 12]
  have m: "''nam4n'' \<in> set (leet_variants ''naman'' False 12)"
    by (simp add: leet_naman_basic)
  have ne: "''nam4n'' \<noteq> ''naman''" by simp
  from th have "\<forall>v \<in> set (leet_variants ''naman'' False 12). v \<noteq> ''naman'' \<longrightarrow>
      (\<exists>pos<length ''naman''. in_leet_map (lower_chr (''naman'' ! pos)) \<and> length v = length ''naman'' \<and>
         [v ! pos] = leet_map (lower_chr (''naman'' ! pos)) ! 1 \<and> v ! pos \<noteq> ''naman'' ! pos \<and>
         (\<forall>i<length ''naman''. i \<noteq> pos \<longrightarrow> v ! i = ''naman'' ! i))"
    by (rule conjunct1[OF conjunct2])
  from bspec[OF this m] ne obtain pos where
    "pos < length ''naman''" "in_leet_map (lower_chr (''naman'' ! pos))"
    "[''nam4n'' ! pos] = leet_map (lower_chr (''naman'' ! pos)) ! 1"
    by metis
  then have ex: "\<exists>pos<length ''naman''. in_leet_map (lower_chr (''naman'' ! pos)) \<and>
      [''nam4n'' ! pos] = leet_map (lower_chr (''naman'' ! pos)) ! 1"
    by (intro exI[of _ pos] conjI)
  from th have len: "length (leet_variants ''naman'' False 12) = Suc (length (positions ''naman''))"
    by (rule conjunct2[OF conjunct2[OF conjunct2]])
  from m ne ex len show ?thesis by (intro conjI)
qed

lemma produced_Nab: "produced_of ''Nab'' True 3 = [''N4b'', ''Na8'', ''Nab'']"
  by code_simp

lemma masks_Nab: "length (product_lists (rngs ''Nab'')) = 6"
  by code_simp

theorem leet_variants_aggressive_cap_witness:
  "(1::int) \<le> 3 \<and> int (length (produced_of ''Nab'' True 3)) = 3 \<and>
   length (product_lists (rngs ''Nab'')) = 6 \<and>
   int (length (leet_variants ''Nab'' True 3)) \<le> 3 + 1"
proof -
  have h: "(1::int) \<le> 3" by simp
  from leet_variants_aggressive_cap[OF h, of "''Nab''"] h show ?thesis
    by (simp add: produced_Nab masks_Nab)
qed

lemma produced_a_zero: "produced_of ''a'' True 0 = [''a'']"
  by code_simp

text \<open>
  Claim C4 as stated, for every cap: with the cap 0 the loop tests the cap only after the
  first variant is added, so the word \<^verbatim>\<open>a\<close> gives one produced variant, more than the cap.
\<close>

theorem leet_variants_cap_zero_counterexample:
  "distinct (produced_of ''a'' True 0) \<and> length (produced_of ''a'' True 0) = 1 \<and>
   \<not> int (length (produced_of ''a'' True 0)) \<le> 0"
  by (simp add: produced_a_zero)

lemma lower_off: "(lower ''off'' = ''aggressive'') = False"
  by (simp add: lower_def)

lemma lower_basic: "(lower ''basic'' = ''aggressive'') = False"
  by (simp add: lower_def)

text \<open>
  Claim C3. The modes \<^verbatim>\<open>off\<close> and \<^verbatim>\<open>basic\<close> both differ from \<^verbatim>\<open>aggressive\<close>, and
  \<^verbatim>\<open>generate_wordlist\<close> returns the same list for both.
\<close>

theorem leet_mode_off_is_basic:
  "lower ''off'' \<noteq> ''aggressive'' \<and> lower ''basic'' \<noteq> ''aggressive'' \<and>
   generate_wordlist iter keywords dob years ''off'' suffixes separators max_candidates =
   generate_wordlist iter keywords dob years ''basic'' suffixes separators max_candidates"
  by (simp only: generate_wordlist_def lower_off lower_basic simp_thms)

section \<open>Year tokens\<close>

declare findall_d24.simps [simp del]
declare str_nat.simps [simp del]

lemma digit_not_space: "is_digit_chr c \<Longrightarrow> \<not> is_space_chr c"
  by (auto simp: is_digit_chr_def is_space_chr_def Let_def)

lemma hyphen_not_space: "\<not> is_space_chr CHR ''-''"
  by (simp add: is_space_chr_def)

lemma dropWhile_spaces:
  "list_all is_space_chr ws \<Longrightarrow> dropWhile is_space_chr (ws @ rest) = dropWhile is_space_chr rest"
  by (simp add: dropWhile_append2 list_all_iff)

lemma dropWhile_digits:
  "list_all is_digit_chr g \<Longrightarrow> g \<noteq> [] \<Longrightarrow> dropWhile is_space_chr (g @ rest) = g @ rest"
  by (cases g) (auto simp: digit_not_space)

lemma match_range_pattern:
  assumes ws: "list_all is_space_chr ws1" "list_all is_space_chr ws2"
      "list_all is_space_chr ws3" "list_all is_space_chr ws4"
    and g1: "length g1 = 4" "list_all is_digit_chr g1"
    and g2: "length g2 = 4" "list_all is_digit_chr g2"
  shows "match_range (ws1 @ g1 @ ws2 @ ''-'' @ ws3 @ g2 @ ws4) = Some (g1, g2)"
proof -
  from g1 g2 have ne: "g1 \<noteq> []" "g2 \<noteq> []" by auto
  have s1: "dropWhile is_space_chr (ws1 @ g1 @ ws2 @ ''-'' @ ws3 @ g2 @ ws4)
              = g1 @ ws2 @ ''-'' @ ws3 @ g2 @ ws4"
    using ws(1) g1 ne by (simp add: dropWhile_spaces dropWhile_digits)
  have s2: "dropWhile is_space_chr (ws2 @ ''-'' @ ws3 @ g2 @ ws4) = ''-'' @ ws3 @ g2 @ ws4"
    using ws(2) by (simp add: dropWhile_spaces hyphen_not_space)
  have s4: "dropWhile is_space_chr (ws3 @ g2 @ ws4) = g2 @ ws4"
    using ws(3) g2 ne by (simp add: dropWhile_spaces dropWhile_digits)
  have s5: "dropWhile is_space_chr ws4 = []"
    using ws(4) by (simp add: list_all_iff)
  show ?thesis
    unfolding match_range_def s1 using g1 g2 s2 s4 s5
    by (simp add: Let_def)
qed

lemma fold_insert_map_set:
  "set (fold (\<lambda>y out. List.insert (f y) out) ys out) = f ` set ys \<union> set out"
  by (induction ys arbitrary: out) auto

lemma fold_insert_filter_set:
  "set (fold (\<lambda>y out. if P y then List.insert y out else out) ys out) = {y \<in> set ys. P y} \<union> set out"
  by (induction ys arbitrary: out) auto

lemma years_part_range:
  assumes "match_range years = Some (g1, g2)"
  shows "set (years_part (Some years)) = str_nat ` {int_of_digits g1 .. int_of_digits g2}"
proof -
  from assms have "years \<noteq> []" by (auto simp: match_range_def)
  with assms show ?thesis
    by (auto simp: years_part_def fold_insert_map_set)
qed

lemma dob_part_superset: "set out \<subseteq> set (dob_part dob out)"
  by (auto simp: dob_part_def Let_def fold_insert_filter_set split: option.splits)

lemma dob_part_None: "dob_part None out = out"
  by (simp add: dob_part_def)

lemma dob_part_set:
  "dob \<noteq> [] \<Longrightarrow> set (dob_part (Some dob) out) =
     {t \<in> set (findall_d24 dob). length t = 2 \<or> length t = 4}
     \<union> (if 8 \<le> length (concat (findall_d24 dob)) then {take 8 (concat (findall_d24 dob))} else {})
     \<union> set out"
  by (auto simp: dob_part_def Let_def fold_insert_filter_set)

lemma years_part_None: "years_part None = []"
  by (simp add: years_part_def)

lemma findall_d24_Cons:
  "findall_d24 (c # cs) =
     (if 2 \<le> length (takeWhile is_digit_chr (c # cs))
      then take 4 (takeWhile is_digit_chr (c # cs))
             # findall_d24 (drop (min 4 (length (takeWhile is_digit_chr (c # cs)))) (c # cs))
      else findall_d24 cs)"
  by (simp only: findall_d24.simps Let_def)

lemma take_run_token:
  assumes "2 \<le> length (takeWhile P xs)"
  shows "2 \<le> length (take 4 (takeWhile P xs)) \<and> length (take 4 (takeWhile P xs)) \<le> 4 \<and>
         list_all P (take 4 (takeWhile P xs))"
proof -
  have "list_all P (take 4 (takeWhile P xs))"
    unfolding list_all_iff
  proof
    fix x assume "x \<in> set (take 4 (takeWhile P xs))"
    then have "x \<in> set (takeWhile P xs)" by (rule in_set_takeD)
    then show "P x" by (rule set_takeWhileD[THEN conjunct2])
  qed
  with assms show ?thesis by simp
qed

lemma findall_d24_tokens:
  "t \<in> set (findall_d24 s) \<Longrightarrow> 2 \<le> length t \<and> length t \<le> 4 \<and> list_all is_digit_chr t"
proof (induction s arbitrary: t rule: findall_d24.induct)
  case 1
  then show ?case by (simp add: findall_d24.simps)
next
  case (2 c cs)
  define run where "run = takeWhile is_digit_chr (c # cs)"
  have unfold: "findall_d24 (c # cs) =
     (if 2 \<le> length run then take 4 run # findall_d24 (drop (min 4 (length run)) (c # cs))
      else findall_d24 cs)"
    unfolding run_def by (rule findall_d24_Cons)
  show ?case
  proof (cases "2 \<le> length run")
    case True
    with "2.prems" unfold
    have "t = take 4 run \<or> t \<in> set (findall_d24 (drop (min 4 (length run)) (c # cs)))"
      by (simp del: drop_Cons')
    then show ?thesis
    proof
      assume t: "t = take 4 run"
      from True take_run_token[of is_digit_chr "c # cs"] show ?thesis
        unfolding t run_def by blast
    next
      assume "t \<in> set (findall_d24 (drop (min 4 (length run)) (c # cs)))"
      with "2.IH"(1)[OF run_def True] show ?thesis .
    qed
  next
    case False
    with "2.prems" unfold have "t \<in> set (findall_d24 cs)" by simp
    with "2.IH"(2)[OF run_def False] show ?thesis .
  qed
qed

lemma parse_years_range_eval:
  "parse_years (Some ''2018-2025'') None =
     [''2018'', ''2019'', ''2020'', ''2021'', ''2022'', ''2023'', ''2024'', ''2025'']"
  by code_simp

lemma parse_years_dob_eval:
  "parse_years None (Some ''2002-08-09'') = [''08'', ''09'', ''2002'', ''20020809'']"
  by code_simp

lemma findall_dob_eval: "findall_d24 ''2002-08-09'' = [''2002'', ''08'', ''09'']"
  by code_simp

lemma parse_years_set: "set (parse_years years dob) = set (dob_part dob (years_part years))"
  by (simp add: parse_years_def)

text \<open>
  Claim C6. A string of the form white space, four digits, white space, a hyphen, white
  space, four digits, white space matches the range pattern; then \<^verbatim>\<open>parse_years\<close> emits
  the decimal string of every integer from START to END, whatever the date of birth, and
  with no date of birth exactly these; and \<^verbatim>\<open>parse_years("2018-2025", None)\<close> is the
  list of the eight years.
\<close>

theorem parse_years_range:
  assumes "list_all is_space_chr ws1" "list_all is_space_chr ws2"
      "list_all is_space_chr ws3" "list_all is_space_chr ws4"
    and "length g1 = 4" "list_all is_digit_chr g1"
    and "length g2 = 4" "list_all is_digit_chr g2"
  shows "(\<forall>y. int_of_digits g1 \<le> y \<and> y \<le> int_of_digits g2 \<longrightarrow>
            str_nat y \<in> set (parse_years (Some (ws1 @ g1 @ ws2 @ ''-'' @ ws3 @ g2 @ ws4)) dob)) \<and>
         set (parse_years (Some (ws1 @ g1 @ ws2 @ ''-'' @ ws3 @ g2 @ ws4)) None)
           = str_nat ` {int_of_digits g1 .. int_of_digits g2} \<and>
         parse_years (Some ''2018-2025'') None =
           [''2018'', ''2019'', ''2020'', ''2021'', ''2022'', ''2023'', ''2024'', ''2025'']"
proof -
  let ?years = "ws1 @ g1 @ ws2 @ ''-'' @ ws3 @ g2 @ ws4"
  have m: "match_range ?years = Some (g1, g2)"
    using assms by (rule match_range_pattern)
  have yp: "set (years_part (Some ?years)) = str_nat ` {int_of_digits g1 .. int_of_digits g2}"
    using m by (rule years_part_range)
  have a: "str_nat y \<in> set (parse_years (Some ?years) dob)"
    if "int_of_digits g1 \<le> y \<and> y \<le> int_of_digits g2" for y
  proof -
    from that have "str_nat y \<in> set (years_part (Some ?years))"
      unfolding yp by simp
    with dob_part_superset[of "years_part (Some ?years)" dob] show ?thesis
      unfolding parse_years_set by blast
  qed
  have b: "set (parse_years (Some ?years) None) = str_nat ` {int_of_digits g1 .. int_of_digits g2}"
    unfolding parse_years_set dob_part_None by (rule yp)
  from a b parse_years_range_eval show ?thesis by blast
qed

lemma int_of_digits_2018: "int_of_digits ''2018'' = 2018"
  by code_simp

lemma int_of_digits_2025: "int_of_digits ''2025'' = 2025"
  by code_simp

lemma str_nat_2020: "str_nat 2020 = ''2020''"
  by code_simp

lemma digits_2018: "list_all is_digit_chr ''2018''"
  by code_simp

lemma digits_2025: "list_all is_digit_chr ''2025''"
  by code_simp

lemma space_blank: "list_all is_space_chr '' ''"
  by code_simp

theorem parse_years_range_witness:
  "list_all is_space_chr '' '' \<and> length ''2018'' = 4 \<and> list_all is_digit_chr ''2018'' \<and>
   length ''2025'' = 4 \<and> list_all is_digit_chr ''2025'' \<and>
   int_of_digits ''2018'' \<le> 2020 \<and> 2020 \<le> int_of_digits ''2025'' \<and>
   ''2020'' \<in> set (parse_years (Some ''2018 - 2025'') (Some ''2002-08-09''))"
proof -
  have e: "list_all is_space_chr []" by simp
  have l: "length ''2018'' = 4" "length ''2025'' = 4" by simp_all
  note th = parse_years_range[OF e space_blank space_blank e l(1) digits_2018 l(2) digits_2025,
      of "Some ''2002-08-09''"]
  have r: "int_of_digits ''2018'' \<le> 2020 \<and> 2020 \<le> int_of_digits ''2025''"
    by (simp add: int_of_digits_2018 int_of_digits_2025)
  from th have "\<forall>y. int_of_digits ''2018'' \<le> y \<and> y \<le> int_of_digits ''2025'' \<longrightarrow>
      str_nat y \<in> set (parse_years (Some ([] @ ''2018'' @ '' '' @ ''-'' @ '' '' @ ''2025'' @ []))
        (Some ''2002-08-09''))"
    by (rule conjunct1)
  from this[THEN spec, of 2020] r
  have "str_nat 2020 \<in> set (parse_years (Some ([] @ ''2018'' @ '' '' @ ''-'' @ '' '' @ ''2025'' @ []))
        (Some ''2002-08-09''))"
    by (rule mp)
  then have "''2020'' \<in> set (parse_years (Some ''2018 - 2025'') (Some ''2002-08-09''))"
    by (simp add: str_nat_2020)
  with space_blank l digits_2018 digits_2025 r show ?thesis by blast
qed

text \<open>
  Claim C7. For a date of birth that is given (not empty), the pattern extracts runs of
  two to four digits; the first eight digits of their concatenation are a token when the
  concatenation has at least eight digits; every extracted run of length 2 or 4 is a
  token; with no years expression these are all the tokens; and
  \<^verbatim>\<open>parse_years(None, "2002-08-09")\<close> has the tokens 20020809, 2002, 08 and 09.
\<close>

theorem parse_years_dob:
  assumes "dob \<noteq> []"
  shows "(\<forall>t \<in> set (findall_d24 dob). 2 \<le> length t \<and> length t \<le> 4 \<and> list_all is_digit_chr t) \<and>
         (8 \<le> length (concat (findall_d24 dob)) \<longrightarrow>
            take 8 (concat (findall_d24 dob)) \<in> set (parse_years years (Some dob))) \<and>
         (\<forall>t \<in> set (findall_d24 dob). length t = 2 \<or> length t = 4 \<longrightarrow>
            t \<in> set (parse_years years (Some dob))) \<and>
         set (parse_years None (Some dob)) =
            {t \<in> set (findall_d24 dob). length t = 2 \<or> length t = 4} \<union>
            (if 8 \<le> length (concat (findall_d24 dob))
             then {take 8 (concat (findall_d24 dob))} else {}) \<and>
         findall_d24 ''2002-08-09'' = [''2002'', ''08'', ''09''] \<and>
         parse_years None (Some ''2002-08-09'') = [''08'', ''09'', ''2002'', ''20020809'']"
proof -
  note s = dob_part_set[OF assms]
  have a: "\<forall>t \<in> set (findall_d24 dob). 2 \<le> length t \<and> length t \<le> 4 \<and> list_all is_digit_chr t"
    using findall_d24_tokens by blast
  have b: "8 \<le> length (concat (findall_d24 dob)) \<longrightarrow>
            take 8 (concat (findall_d24 dob)) \<in> set (parse_years years (Some dob))"
    unfolding parse_years_set s by simp
  have c: "\<forall>t \<in> set (findall_d24 dob). length t = 2 \<or> length t = 4 \<longrightarrow>
            t \<in> set (parse_years years (Some dob))"
    unfolding parse_years_set s by simp
  have d: "set (parse_years None (Some dob)) =
            {t \<in> set (findall_d24 dob). length t = 2 \<or> length t = 4} \<union>
            (if 8 \<le> length (concat (findall_d24 dob))
             then {take 8 (concat (findall_d24 dob))} else {})"
    unfolding parse_years_set s years_part_None by simp
  from a b c d findall_dob_eval parse_years_dob_eval show ?thesis by (intro conjI)
qed

theorem parse_years_dob_witness:
  "''2002-08-09'' \<noteq> [] \<and> 8 \<le> length (concat (findall_d24 ''2002-08-09'')) \<and>
   take 8 (concat (findall_d24 ''2002-08-09'')) = ''20020809'' \<and>
   ''20020809'' \<in> set (parse_years (Some ''2018-2025'') (Some ''2002-08-09''))"
proof -
  have ne: "''2002-08-09'' \<noteq> []" by simp
  have len: "8 \<le> length (concat (findall_d24 ''2002-08-09''))"
    by (simp add: findall_dob_eval)
  have tk: "take 8 (concat (findall_d24 ''2002-08-09'')) = ''20020809''"
    by (simp add: findall_dob_eval)
  from parse_years_dob[OF ne, of "Some ''2018-2025''"]
  have "8 \<le> length (concat (findall_d24 ''2002-08-09'')) \<longrightarrow>
          take 8 (concat (findall_d24 ''2002-08-09''))
            \<in> set (parse_years (Some ''2018-2025'') (Some ''2002-08-09''))"
    by (rule conjunct1[OF conjunct2])
  from this len have "take 8 (concat (findall_d24 ''2002-08-09''))
            \<in> set (parse_years (Some ''2018-2025'') (Some ''2002-08-09''))"
    by (rule mp)
  with ne len tk show ?thesis by simp
qed

section \<open>The fallback estimator\<close>

text \<open>
  Claim C8. Without the engine, \<^verbatim>\<open>analyze_password\<close> returns a result (it raises
  nothing) for every password and every list of hints; the field \<^verbatim>\<open>engine\<close> of the
  result is \<^verbatim>\<open>entropy_fallback\<close> and its feedback has a warning that is not empty.
\<close>

theorem analyze_password_fallback:
  "\<exists>r fb w. analyze_password None password user_inputs = Inr r \<and>
      map_of r ''engine'' = Some (JStr ''entropy_fallback'') \<and>
      map_of r ''feedback'' = Some (JDict fb) \<and>
      map_of fb ''warning'' = Some (JStr w) \<and> w \<noteq> []"
  by (simp add: analyze_password_def Let_def)

lemma log2_upper:
  assumes "0 < x" "0 < b" "x ^ b < 2 ^ a"
  shows "log 2 x < real a / real b"
proof -
  have "real b * log 2 x = log 2 (x ^ b)"
    using assms(1) by (simp add: log_nat_power)
  also have "\<dots> < log 2 (2 ^ a)"
    using assms log_less_cancel_iff[of 2 "x ^ b" "2 ^ a"] by simp
  also have "\<dots> = real a" by simp
  finally show ?thesis using assms(2) by (simp add: field_simps)
qed

lemma log2_lower:
  assumes "0 < x" "0 < b" "2 ^ a < x ^ b"
  shows "real a / real b < log 2 x"
proof -
  have "real a = log 2 (2 ^ a)" by simp
  also have "\<dots> < log 2 (x ^ b)"
    using assms log_less_cancel_iff[of 2 "2 ^ a" "x ^ b"] by simp
  also have "\<dots> = real b * log 2 x"
    using assms(1) by (simp add: log_nat_power)
  finally show ?thesis using assms(2) by (simp add: field_simps)
qed

lemma log2_94_bounds: "721 / 110 < log 2 (94::real) \<and> log 2 (94::real) < 780 / 119"
proof
  have "(2::real) ^ 721 < 94 ^ 110" by simp
  from log2_lower[OF _ _ this] show "721 / 110 < log 2 (94::real)" by simp
next
  have "(94::real) ^ 119 < 2 ^ 780" by simp
  from log2_upper[OF _ _ this] show "log 2 (94::real) < 780 / 119" by simp
qed

lemma entropy_abcdefgh:
  "5243 / 100 < entropy_estimate ''abcdefgh'' \<and> entropy_estimate ''abcdefgh'' < 5244 / 100"
  using log2_94_bounds by (simp add: entropy_estimate_def)

text \<open>
  Claim C9. The estimate of the empty password is 0 and that of any other password is
  its length times \<open>log\<^sub>2 94\<close>; the score follows the thresholds 28, 36, 60 and 80; the
  password \<^verbatim>\<open>abcdefgh\<close> has 8 characters, an estimate between 52.43 and 52.44 and
  the score 2, also for every value within 1 of the estimate (so whatever the rounding
  of the floating point product), and the result of the fallback carries that score.
\<close>

theorem entropy_fallback_score:
  "entropy_estimate '''' = 0 \<and>
   (\<forall>password. password \<noteq> [] \<longrightarrow>
      entropy_estimate password = real (length password) * log 2 94) \<and>
   (\<forall>ent. (ent < 28 \<longrightarrow> fallback_score ent = 0) \<and>
          (28 \<le> ent \<and> ent < 36 \<longrightarrow> fallback_score ent = 1) \<and>
          (36 \<le> ent \<and> ent < 60 \<longrightarrow> fallback_score ent = 2) \<and>
          (60 \<le> ent \<and> ent < 80 \<longrightarrow> fallback_score ent = 3) \<and>
          (80 \<le> ent \<longrightarrow> fallback_score ent = 4)) \<and>
   length ''abcdefgh'' = 8 \<and>
   5243 / 100 < entropy_estimate ''abcdefgh'' \<and> entropy_estimate ''abcdefgh'' < 5244 / 100 \<and>
   fallback_score (entropy_estimate ''abcdefgh'') = 2 \<and>
   (\<forall>ent. \<bar>ent - entropy_estimate ''abcdefgh''\<bar> \<le> 1 \<longrightarrow> fallback_score ent = 2) \<and>
   (\<exists>r. analyze_password None ''abcdefgh'' user_inputs = Inr r \<and>
        map_of r ''score'' = Some (JInt 2))"
proof -
  note b = entropy_abcdefgh
  have s: "fallback_score ent = 2" if "\<bar>ent - entropy_estimate ''abcdefgh''\<bar> \<le> 1" for ent
    using that b by (simp add: fallback_score_def abs_le_iff)
  have s0: "fallback_score (entropy_estimate ''abcdefgh'') = 2"
    by (rule s) simp
  have th: "(ent < 28 \<longrightarrow> fallback_score ent = 0) \<and>
          (28 \<le> ent \<and> ent < 36 \<longrightarrow> fallback_score ent = 1) \<and>
          (36 \<le> ent \<and> ent < 60 \<longrightarrow> fallback_score ent = 2) \<and>
          (60 \<le> ent \<and> ent < 80 \<longrightarrow> fallback_score ent = 3) \<and>
          (80 \<le> ent \<longrightarrow> fallback_score ent = 4)" for ent
    by (simp add: fallback_score_def)
  have an: "\<exists>r. analyze_password None ''abcdefgh'' user_inputs = Inr r \<and>
        map_of r ''score'' = Some (JInt 2)"
    using s0 by (simp add: analyze_password_def Let_def)
  have e0: "entropy_estimate '''' = 0" by (simp add: entropy_estimate_def)
  have e1: "\<forall>password. password \<noteq> [] \<longrightarrow>
      entropy_estimate password = real (length password) * log 2 94"
    by (simp add: entropy_estimate_def)
  have l: "length ''abcdefgh'' = 8" by simp
  from e0 e1 th l b s0 s an show ?thesis by blast
qed

theorem entropy_fallback_score_witness:
  "''abcdefgh'' \<noteq> [] \<and> entropy_estimate ''abcdefgh'' = 8 * log 2 94 \<and>
   36 \<le> entropy_estimate ''abcdefgh'' \<and> entropy_estimate ''abcdefgh'' < 60 \<and>
   fallback_score (entropy_estimate ''abcdefgh'') = 2"
proof -
  note th = entropy_fallback_score[of "None"]
  have ne: "''abcdefgh'' \<noteq> []" by simp
  from th have "\<forall>password. password \<noteq> [] \<longrightarrow>
      entropy_estimate password = real (length password) * log 2 94"
    by (rule conjunct1[OF conjunct2])
  from this[THEN spec, of "''abcdefgh''"] ne
  have e: "entropy_estimate ''abcdefgh'' = real (length ''abcdefgh'') * log 2 94"
    by (rule mp)
  from th have b: "5243 / 100 < entropy_estimate ''abcdefgh''"
    "entropy_estimate ''abcdefgh'' < 5244 / 100"
    "fallback_score (entropy_estimate ''abcdefgh'') = 2"
    by blast+
  from ne e b show ?thesis by simp
qed

section \<open>The wordlist\<close>

lemma fold_invariant:
  assumes "\<And>x a. P a \<Longrightarrow> P (f x a)" and "P a"
  shows "P (fold f xs a)"
  using assms(2) by (induction xs arbitrary: a) (auto intro: assms(1))

lemma fold_union_set:
  assumes "\<And>x a. set (f x a) = g x \<union> set a"
  shows "set (fold f xs a) = (\<Union>x\<in>set xs. g x) \<union> set a"
  by (induction xs arbitrary: a) (auto simp: assms)

lemma fold_length_le:
  assumes "\<And>x a. length (f x a) \<le> length a + k"
  shows "length (fold f xs a) \<le> length a + k * length xs"
proof (induction xs arbitrary: a)
  case Nil
  then show ?case by simp
next
  case (Cons x xs)
  have "length (fold f xs (f x a)) \<le> length (f x a) + k * length xs" by (rule Cons.IH)
  also have "\<dots> \<le> length a + k + k * length xs" using assms[of x a] by simp
  finally show ?case by simp
qed

lemma maybe_add_set:
  "set (maybe_add c out) = (if in_window c then {c} else {}) \<union> set out"
  by (simp add: maybe_add_def in_window_def)

lemma maybe_add_length: "length (maybe_add c out) \<le> length out + 1"
  by (simp add: maybe_add_def List.insert_def)

lemma maybe_add_good: "good_out out \<Longrightarrow> good_out (maybe_add c out)"
  by (auto simp: good_out_def maybe_add_def in_window_def list_all_iff)

lemma combine_good: "good_out (combine expanded years suffixes)"
proof -
  have g0: "good_out []" by (simp add: good_out_def)
  have g1: "good_out (fold maybe_add expanded [])"
    by (rule fold_invariant[where P = good_out]) (simp_all add: maybe_add_good g0)
  have g2: "good_out (fold (\<lambda>b out. fold (\<lambda>y out. maybe_add (y @ b) (maybe_add (b @ y) out)) years out)
                   expanded a)" if "good_out a" for a
    by (intro fold_invariant[where P = good_out] maybe_add_good that)
  have g3: "good_out (fold (\<lambda>b out. fold (\<lambda>s out. maybe_add (b @ s) out) suffixes out) expanded a)"
    if "good_out a" for a
    by (intro fold_invariant[where P = good_out] maybe_add_good that)
  have g4: "good_out (fold (\<lambda>b out. fold (\<lambda>y out. fold (\<lambda>s out. maybe_add (b @ y @ s) out) suffixes out)
                 years out) expanded a)" if "good_out a" for a
    by (intro fold_invariant[where P = good_out] maybe_add_good that)
  show ?thesis
    unfolding combine_def Let_def by (intro g4 g3 g2 g1)
qed

lemma combine_set:
  "set (combine expanded years suffixes) = {c \<in> candidates expanded years suffixes. in_window c}"
proof -
  have s1: "set (fold maybe_add expanded a) = (\<Union>b\<in>set expanded. if in_window b then {b} else {}) \<union> set a"
    for a by (rule fold_union_set) (rule maybe_add_set)
  have i2: "set (fold (\<lambda>y out. maybe_add (y @ b) (maybe_add (b @ y) out)) years a)
      = (\<Union>y\<in>set years. (if in_window (y @ b) then {y @ b} else {}) \<union>
                           (if in_window (b @ y) then {b @ y} else {})) \<union> set a" for b a
    by (rule fold_union_set) (auto simp: maybe_add_set)
  have s2: "set (fold (\<lambda>b out. fold (\<lambda>y out. maybe_add (y @ b) (maybe_add (b @ y) out)) years out)
                   expanded a)
      = (\<Union>b\<in>set expanded. \<Union>y\<in>set years. (if in_window (y @ b) then {y @ b} else {}) \<union>
                           (if in_window (b @ y) then {b @ y} else {})) \<union> set a" for a
    by (rule fold_union_set) (rule i2)
  have i3: "set (fold (\<lambda>s out. maybe_add (b @ s) out) suffixes a)
      = (\<Union>s\<in>set suffixes. if in_window (b @ s) then {b @ s} else {}) \<union> set a" for b a
    by (rule fold_union_set) (rule maybe_add_set)
  have s3: "set (fold (\<lambda>b out. fold (\<lambda>s out. maybe_add (b @ s) out) suffixes out) expanded a)
      = (\<Union>b\<in>set expanded. \<Union>s\<in>set suffixes. if in_window (b @ s) then {b @ s} else {}) \<union> set a"
    for a by (rule fold_union_set) (rule i3)
  have j4: "set (fold (\<lambda>s out. maybe_add (b @ y @ s) out) suffixes a)
      = (\<Union>s\<in>set suffixes. if in_window (b @ y @ s) then {b @ y @ s} else {}) \<union> set a" for b y a
    by (rule fold_union_set) (rule maybe_add_set)
  have i4: "set (fold (\<lambda>y out. fold (\<lambda>s out. maybe_add (b @ y @ s) out) suffixes out) years a)
      = (\<Union>y\<in>set years. \<Union>s\<in>set suffixes. if in_window (b @ y @ s) then {b @ y @ s} else {}) \<union> set a"
    for b a by (rule fold_union_set) (rule j4)
  have s4: "set (fold (\<lambda>b out. fold (\<lambda>y out. fold (\<lambda>s out. maybe_add (b @ y @ s) out) suffixes out)
                 years out) expanded a)
      = (\<Union>b\<in>set expanded. \<Union>y\<in>set years. \<Union>s\<in>set suffixes.
            if in_window (b @ y @ s) then {b @ y @ s} else {}) \<union> set a" for a
    by (rule fold_union_set) (rule i4)
  have ifset: "(if P then {x} else {}) = {c. c = x \<and> P}" for P and x :: string
    by auto
  show ?thesis
    unfolding combine_def Let_def s4 s3 s2 s1 candidates_def ifset
    by (intro set_eqI) (simp, blast)
qed

lemma combine_length:
  "length (combine expanded years suffixes)
     \<le> length expanded * (1 + 2 * length years + length suffixes + length years * length suffixes)"
proof -
  have l1: "length (fold maybe_add expanded a) \<le> length a + 1 * length expanded" for a
    by (rule fold_length_le) (rule maybe_add_length)
  have i2: "length (fold (\<lambda>y out. maybe_add (y @ b) (maybe_add (b @ y) out)) years a)
      \<le> length a + 2 * length years" for b a
  proof (rule fold_length_le)
    fix y a show "length (maybe_add (y @ b) (maybe_add (b @ y) a)) \<le> length a + 2"
      using maybe_add_length[of "y @ b" "maybe_add (b @ y) a"] maybe_add_length[of "b @ y" a]
      by simp
  qed
  have l2: "length (fold (\<lambda>b out. fold (\<lambda>y out. maybe_add (y @ b) (maybe_add (b @ y) out)) years out)
                   expanded a) \<le> length a + (2 * length years) * length expanded" for a
    by (rule fold_length_le) (rule i2)
  have i3: "length (fold (\<lambda>s out. maybe_add (b @ s) out) suffixes a) \<le> length a + 1 * length suffixes"
    for b a by (rule fold_length_le) (rule maybe_add_length)
  have l3: "length (fold (\<lambda>b out. fold (\<lambda>s out. maybe_add (b @ s) out) suffixes out) expanded a)
      \<le> length a + (1 * length suffixes) * length expanded" for a
    by (rule fold_length_le) (rule i3)
  have j4: "length (fold (\<lambda>s out. maybe_add (b @ y @ s) out) suffixes a) \<le> length a + 1 * length suffixes"
    for b y a by (rule fold_length_le) (rule maybe_add_length)
  have i4: "length (fold (\<lambda>y out. fold (\<lambda>s out. maybe_add (b @ y @ s) out) suffixes out) years a)
      \<le> length a + (1 * length suffixes) * length years" for b a
    by (rule fold_length_le) (rule j4)
  have l4: "length (fold (\<lambda>b out. fold (\<lambda>y out. fold (\<lambda>s out. maybe_add (b @ y @ s) out) suffixes out)
                 years out) expanded a)
      \<le> length a + ((1 * length suffixes) * length years) * length expanded" for a
    by (rule fold_length_le) (rule i4)
  let ?o1 = "fold maybe_add expanded []"
  let ?o2 = "fold (\<lambda>b out. fold (\<lambda>y out. maybe_add (y @ b) (maybe_add (b @ y) out)) years out)
                   expanded ?o1"
  let ?o3 = "fold (\<lambda>b out. fold (\<lambda>s out. maybe_add (b @ s) out) suffixes out) expanded ?o2"
  have "length (combine expanded years suffixes)
      \<le> length ?o3 + ((1 * length suffixes) * length years) * length expanded"
    unfolding combine_def Let_def by (rule l4)
  also have "length ?o3 \<le> length ?o2 + (1 * length suffixes) * length expanded" by (rule l3)
  also have "length ?o2 \<le> length ?o1 + (2 * length years) * length expanded" by (rule l2)
  also have "length ?o1 \<le> length ([] :: string list) + 1 * length expanded" by (rule l1)
  finally show ?thesis by (simp add: algebra_simps)
qed

lemma expand_loop_distinct:
  "distinct expanded \<Longrightarrow> distinct (expand_loop aggressive max_candidates bs expanded)"
  by (induction bs arbitrary: expanded) (simp_all add: Let_def)

lemma expand_loop_full:
  assumes "distinct expanded"
    and "int (card (set expanded \<union> (\<Union>b\<in>set bs. set (leet_variants b aggressive 12)))) \<le> max_candidates"
  shows "set (expand_loop aggressive max_candidates bs expanded)
           = set expanded \<union> (\<Union>b\<in>set bs. set (leet_variants b aggressive 12))"
  using assms
proof (induction bs arbitrary: expanded)
  case Nil
  then show ?case by simp
next
  case (Cons b bs)
  let ?e = "List.union (leet_variants b aggressive 12) expanded"
  let ?all = "set expanded \<union> (\<Union>b\<in>set (b # bs). set (leet_variants b aggressive 12))"
  have d: "distinct ?e" using Cons.prems(1) by simp
  have fin: "finite ?all" by simp
  have "set ?e \<subseteq> ?all" by auto
  then have "card (set ?e) \<le> card ?all" using fin by (rule card_mono[rotated])
  moreover have "length ?e = card (set ?e)" using distinct_card[OF d] by simp
  ultimately have small: "\<not> int (length ?e) > max_candidates" using Cons.prems(2) by linarith
  have eq: "set ?e \<union> (\<Union>b\<in>set bs. set (leet_variants b aggressive 12)) = ?all" by auto
  have "set (expand_loop aggressive max_candidates bs ?e)
          = set ?e \<union> (\<Union>b\<in>set bs. set (leet_variants b aggressive 12))"
    using d Cons.prems(2) unfolding eq[symmetric] by (rule Cons.IH)
  with small eq show ?case by (simp add: Let_def)
qed

lemma slice_to_take: "\<exists>k. slice_to n xs = take k xs"
  by (auto simp: slice_to_def)

lemma slice_to_length: "0 \<le> n \<Longrightarrow> int (length (slice_to n xs)) \<le> n"
  by (simp add: slice_to_def)

lemma slice_to_all: "int (length xs) \<le> n \<Longrightarrow> slice_to n xs = xs"
  by (simp add: slice_to_def)

lemma sorted_key_strict:
  "sorted (map sort_key_of xs) \<Longrightarrow> distinct xs \<Longrightarrow>
     sorted_wrt (\<lambda>x y. length x < length y \<or> (length x = length y \<and> x < y)) xs"
proof (induction xs)
  case Nil
  then show ?case by simp
next
  case (Cons a xs)
  have "length a < length x \<or> (length a = length x \<and> a < x)" if "x \<in> set xs" for x
  proof -
    from Cons.prems(1) that have "sort_key_of a \<le> sort_key_of x" by auto
    then have "length a < length x \<or> (length a \<le> length x \<and> a \<le> x)"
      by (simp add: sort_key_of_def less_eq_prod_def)
    moreover from Cons.prems(2) that have "a \<noteq> x" by auto
    ultimately show ?thesis by auto
  qed
  with Cons show ?case by simp
qed

lemma generate_wordlist_take:
  "\<exists>k expanded. generate_wordlist iter keywords dob years leet_mode suffixes separators max_candidates
     = take k (sort_key sort_key_of (combine expanded years suffixes))"
proof -
  let ?e = "expand_loop (lower leet_mode = ''aggressive'') max_candidates
              (iter (build_bases keywords dob separators)) []"
  from slice_to_take[of max_candidates "sort_key sort_key_of (combine ?e years suffixes)"]
  obtain k where "slice_to max_candidates (sort_key sort_key_of (combine ?e years suffixes))
      = take k (sort_key sort_key_of (combine ?e years suffixes))" by blast
  then show ?thesis unfolding generate_wordlist_def Let_def by blast
qed

lemma sorted_out_properties:
  assumes "r = take k (sort_key sort_key_of (combine expanded years suffixes))"
  shows "distinct r \<and> (\<forall>x\<in>set r. 4 \<le> length x \<and> length x \<le> 64) \<and>
         sorted_wrt (\<lambda>x y. length x < length y \<or> (length x = length y \<and> x < y)) r"
proof -
  let ?out = "combine expanded years suffixes"
  from combine_good[of expanded years suffixes]
  have g: "distinct ?out" "\<forall>x\<in>set ?out. in_window x"
    by (simp_all add: good_out_def list_all_iff)
  have d: "distinct r" unfolding assms using g(1) by simp
  have "set r \<subseteq> set ?out" unfolding assms using set_take_subset[of k "sort_key sort_key_of ?out"]
    by simp
  with g(2) have w: "\<forall>x\<in>set r. 4 \<le> length x \<and> length x \<le> 64"
    by (auto simp: in_window_def)
  have "sorted (map sort_key_of (sort_key sort_key_of ?out))" by (rule sorted_sort_key)
  then have "sorted (map sort_key_of r)"
    unfolding assms take_map[symmetric] by (rule sorted_wrt_take)
  with d have "sorted_wrt (\<lambda>x y. length x < length y \<or> (length x = length y \<and> x < y)) r"
    by (intro sorted_key_strict)
  with d w show ?thesis by blast
qed

text \<open>
  Claim C1, with the bound on the size for a maximum that is not negative. For every
  input and every iteration order, the list \<^verbatim>\<open>generate_wordlist\<close> returns has no
  duplicate, every element has between 4 and 64 characters, and the list is strictly
  ascending by (length, then the order of strings); when \<^verbatim>\<open>max_candidates\<close> is at least 0
  the list has at most \<^verbatim>\<open>max_candidates\<close> elements.
\<close>

theorem generate_wordlist_final:
  "distinct (generate_wordlist iter keywords dob years leet_mode suffixes separators max_candidates) \<and>
   (\<forall>x \<in> set (generate_wordlist iter keywords dob years leet_mode suffixes separators max_candidates).
      4 \<le> length x \<and> length x \<le> 64) \<and>
   sorted_wrt (\<lambda>x y. length x < length y \<or> (length x = length y \<and> x < y))
     (generate_wordlist iter keywords dob years leet_mode suffixes separators max_candidates) \<and>
   (0 \<le> max_candidates \<longrightarrow>
      int (length (generate_wordlist iter keywords dob years leet_mode suffixes separators
        max_candidates)) \<le> max_candidates)"
proof -
  from generate_wordlist_take obtain k expanded where
    "generate_wordlist iter keywords dob years leet_mode suffixes separators max_candidates
       = take k (sort_key sort_key_of (combine expanded years suffixes))"
    by blast
  from sorted_out_properties[OF this]
  have a: "distinct (generate_wordlist iter keywords dob years leet_mode suffixes separators max_candidates) \<and>
   (\<forall>x \<in> set (generate_wordlist iter keywords dob years leet_mode suffixes separators max_candidates).
      4 \<le> length x \<and> length x \<le> 64) \<and>
   sorted_wrt (\<lambda>x y. length x < length y \<or> (length x = length y \<and> x < y))
     (generate_wordlist iter keywords dob years leet_mode suffixes separators max_candidates)" .
  have b: "0 \<le> max_candidates \<longrightarrow>
      int (length (generate_wordlist iter keywords dob years leet_mode suffixes separators
        max_candidates)) \<le> max_candidates"
    by (simp add: generate_wordlist_def Let_def slice_to_length)
  from a b show ?thesis by blast
qed

lemma wordlist_naman_two:
  "generate_wordlist (\<lambda>bases. bases) [''naman''] None [] ''basic'' [] [] 2 = [''n4man'', ''nam4n'']"
  by code_simp

lemma wordlist_naman_negative:
  "generate_wordlist (\<lambda>bases. bases) [''naman''] None [] ''basic'' [] [] (- 1) = [''n4man'', ''nam4n'']"
  by code_simp

theorem generate_wordlist_final_witness:
  "(0::int) \<le> 2 \<and>
   ''n4man'' \<in> set (generate_wordlist (\<lambda>bases. bases) [''naman''] None [] ''basic'' [] [] 2) \<and>
   4 \<le> length ''n4man'' \<and> length ''n4man'' \<le> 64 \<and>
   int (length (generate_wordlist (\<lambda>bases. bases) [''naman''] None [] ''basic'' [] [] 2)) \<le> 2"
proof -
  note th = generate_wordlist_final[of "\<lambda>bases. bases" "[''naman'']" None "[]" "''basic''" "[]" "[]" 2]
  have m: "''n4man'' \<in> set (generate_wordlist (\<lambda>bases. bases) [''naman''] None [] ''basic'' [] [] 2)"
    by (simp add: wordlist_naman_two)
  from th have "\<forall>x \<in> set (generate_wordlist (\<lambda>bases. bases) [''naman''] None [] ''basic'' [] [] 2).
      4 \<le> length x \<and> length x \<le> 64"
    by (rule conjunct1[OF conjunct2])
  from bspec[OF this m] have w: "4 \<le> length ''n4man'' \<and> length ''n4man'' \<le> 64" .
  from th have "(0::int) \<le> 2 \<longrightarrow>
      int (length (generate_wordlist (\<lambda>bases. bases) [''naman''] None [] ''basic'' [] [] 2)) \<le> 2"
    by (rule conjunct2[OF conjunct2[OF conjunct2]])
  then have l: "int (length (generate_wordlist (\<lambda>bases. bases) [''naman''] None [] ''basic'' [] [] 2)) \<le> 2"
    by simp
  from m w l show ?thesis by simp
qed

text \<open>
  Claim C1 as stated, for every \<^verbatim>\<open>max_candidates\<close>: with the maximum \<open>-1\<close> the slice
  \<^verbatim>\<open>[:max_candidates]\<close> drops the last element only, and the keyword \<^verbatim>\<open>naman\<close> gives a
  list of two elements, more than the maximum.
\<close>

theorem generate_wordlist_negative_max_counterexample:
  "length (generate_wordlist (\<lambda>bases. bases) [''naman''] None [] ''basic'' [] [] (- 1)) = 2 \<and>
   \<not> int (length (generate_wordlist (\<lambda>bases. bases) [''naman''] None [] ''basic'' [] [] (- 1))) \<le> - 1"
  by (simp add: wordlist_naman_negative)

lemma bases_naman: "build_bases [''naman''] None [] = [''naman'', ''NAMAN'', ''Naman'']"
  by code_simp

lemma leet_NAMAN_basic: "leet_variants ''NAMAN'' False 12 = [''NAMAN'', ''NAM4N'', ''N4MAN'']"
  by code_simp

lemma leet_Naman_basic: "leet_variants ''Naman'' False 12 = [''Naman'', ''Nam4n'', ''N4man'']"
  by code_simp

lemma expanded_naman:
  assumes "iteration_order iter"
  shows "set (expand_loop False 1000 (iter (build_bases [''naman''] None [])) [])
           = set [''naman'', ''nam4n'', ''n4man'', ''NAMAN'', ''NAM4N'', ''N4MAN'',
                  ''Naman'', ''Nam4n'', ''N4man'']"
    and "length (expand_loop False 1000 (iter (build_bases [''naman''] None [])) []) = 9"
proof -
  let ?bs = "iter (build_bases [''naman''] None [])"
  let ?L = "[''naman'', ''nam4n'', ''n4man'', ''NAMAN'', ''NAM4N'', ''N4MAN'',
             ''Naman'', ''Nam4n'', ''N4man'']"
  have "distinct (build_bases [''naman''] None [])" by (simp add: bases_naman)
  with assms have "set ?bs = set (build_bases [''naman''] None [])"
    by (simp add: iteration_order_def)
  then have bs: "set ?bs = {''naman'', ''NAMAN'', ''Naman''}" by (simp add: bases_naman)
  have L: "?L = leet_variants ''naman'' False 12 @ leet_variants ''NAMAN'' False 12
                 @ leet_variants ''Naman'' False 12"
    unfolding leet_naman_basic leet_NAMAN_basic leet_Naman_basic by simp
  have U: "set ([] :: string list) \<union> (\<Union>b\<in>set ?bs. set (leet_variants b False 12)) = set ?L"
    unfolding bs L by (simp only: UN_insert UN_empty set_append list.set Un_empty_left Un_empty_right)
  have dL: "distinct ?L" by simp
  have cL: "card (set ?L) = 9" using distinct_card[OF dL] by simp
  have small: "int (card (set ([] :: string list) \<union> (\<Union>b\<in>set ?bs. set (leet_variants b False 12)))) \<le> 1000"
    unfolding U cL by simp
  have "set (expand_loop False 1000 ?bs []) = set [] \<union> (\<Union>b\<in>set ?bs. set (leet_variants b False 12))"
    using _ small by (rule expand_loop_full) simp
  then show s: "set (expand_loop False 1000 ?bs []) = set ?L" unfolding U .
  have "distinct (expand_loop False 1000 ?bs [])" by (rule expand_loop_distinct) simp
  from distinct_card[OF this] s cL show "length (expand_loop False 1000 ?bs []) = 9" by simp
qed

text \<open>
  Claim C2. Whatever the order in which the set of bases is iterated, the wordlist of the
  keyword \<^verbatim>\<open>naman\<close>, the year 2024, the mode \<^verbatim>\<open>basic\<close>, the suffix \<^verbatim>\<open>!\<close>, no separator
  and the maximum 1000 contains \<^verbatim>\<open>naman2024\<close>, \<^verbatim>\<open>2024naman\<close>, \<^verbatim>\<open>naman!\<close> and
  \<^verbatim>\<open>naman2024!\<close>, and each of its elements has between 4 and 64 characters.
\<close>

theorem generate_wordlist_naman:
  assumes "iteration_order iter"
  shows "''naman2024'' \<in> set (generate_wordlist iter [''naman''] None [''2024''] ''basic'' [''!''] [] 1000) \<and>
         ''2024naman'' \<in> set (generate_wordlist iter [''naman''] None [''2024''] ''basic'' [''!''] [] 1000) \<and>
         ''naman!'' \<in> set (generate_wordlist iter [''naman''] None [''2024''] ''basic'' [''!''] [] 1000) \<and>
         ''naman2024!'' \<in> set (generate_wordlist iter [''naman''] None [''2024''] ''basic'' [''!''] [] 1000) \<and>
         (\<forall>c \<in> set (generate_wordlist iter [''naman''] None [''2024''] ''basic'' [''!''] [] 1000).
            4 \<le> length c \<and> length c \<le> 64)"
proof -
  let ?e = "expand_loop False 1000 (iter (build_bases [''naman''] None [])) []"
  let ?out = "combine ?e [''2024''] [''!'']"
  let ?r = "generate_wordlist iter [''naman''] None [''2024''] ''basic'' [''!''] [] 1000"
  note e = expanded_naman[OF assms]
  have "length ?out \<le> length ?e * (1 + 2 * length [''2024''] + length [''!''] + length [''2024''] * length [''!''])"
    by (rule combine_length)
  with e(2) have "length ?out \<le> 45" by simp
  then have "int (length (sort_key sort_key_of ?out)) \<le> 1000" by simp
  then have "slice_to 1000 (sort_key sort_key_of ?out) = sort_key sort_key_of ?out"
    by (rule slice_to_all)
  then have r: "set ?r = set ?out"
    by (simp add: generate_wordlist_def Let_def lower_basic)
  have b: "''naman'' \<in> set ?e" unfolding e(1) by simp
  have c1: "''naman2024'' \<in> candidates ?e [''2024''] [''!'']"
    using b unfolding candidates_def by force
  have c2: "''2024naman'' \<in> candidates ?e [''2024''] [''!'']"
    using b unfolding candidates_def by force
  have c3: "''naman!'' \<in> candidates ?e [''2024''] [''!'']"
    using b unfolding candidates_def by force
  have c4: "''naman2024!'' \<in> candidates ?e [''2024''] [''!'']"
    using b unfolding candidates_def by force
  have m: "''naman2024'' \<in> set ?r" "''2024naman'' \<in> set ?r" "''naman!'' \<in> set ?r"
    "''naman2024!'' \<in> set ?r"
    unfolding r combine_set using c1 c2 c3 c4 by (simp_all add: in_window_def)
  have w: "\<forall>c \<in> set ?r. 4 \<le> length c \<and> length c \<le> 64"
    using generate_wordlist_take[of iter "[''naman'']" None "[''2024'']" "''basic''" "[''!'']" "[]" 1000]
      sorted_out_properties by blast
  from m w show ?thesis by (intro conjI)
qed

lemma identity_iteration_order: "iteration_order (\<lambda>bases. bases)"
  by (simp add: iteration_order_def)

theorem generate_wordlist_naman_witness:
  "iteration_order (\<lambda>bases. bases) \<and>
   ''naman2024'' \<in> set (generate_wordlist (\<lambda>bases. bases) [''naman''] None [''2024''] ''basic'' [''!''] [] 1000) \<and>
   4 \<le> length ''naman2024'' \<and> length ''naman2024'' \<le> 64"
proof -
  note th = generate_wordlist_naman[OF identity_iteration_order]
  from th have m: "''naman2024'' \<in> set (generate_wordlist (\<lambda>bases. bases) [''naman''] None [''2024'']
      ''basic'' [''!''] [] 1000)"
    by (rule conjunct1)
  from th have "\<forall>c \<in> set (generate_wordlist (\<lambda>bases. bases) [''naman''] None [''2024'']
      ''basic'' [''!''] [] 1000). 4 \<le> length c \<and> length c \<le> 64"
    by (rule conjunct2[OF conjunct2[OF conjunct2[OF conjunct2]]])
  from bspec[OF this m] identity_iteration_order m show ?thesis by simp
qed

section \<open>A lower case that is longer than the word\<close>

lemma key_i: "in_leet_map_u 105" by code_simp
lemma key_a: "in_leet_map_u 97" by code_simp
lemma combining_dot_no_key: "\<not> in_leet_map_u 775" by code_simp
lemma x_no_key: "\<not> in_leet_map_u 120" by code_simp
lemma key_b: "in_leet_map_u 98" by code_simp
lemma leet_map_u_i: "leet_map_u 105 = [[105], [49], [33]]" by code_simp
lemma leet_map_u_a: "leet_map_u 97 = [[97], [52], [64]]" by code_simp
lemma leet_map_u_b: "leet_map_u 98 = [[98], [56]]" by code_simp

lemma positions_u_iax:
  assumes "lower_of [304, 97, 120] = [105, 775, 97, 120]"
  shows "positions_u lower_of [304, 97, 120] = [(0, 105), (2, 97)]"
  by (simp add: positions_u_def assms key_i key_a combining_dot_no_key x_no_key)

lemma positions_u_ib:
  assumes "lower_of [304, 98] = [105, 775, 98]"
  shows "positions_u lower_of [304, 98] = [(0, 105), (2, 98)]"
  by (simp add: positions_u_def assms key_i combining_dot_no_key key_b)

lemma range_one_two: "[1 ..< min (3::nat) 2] = [1]" "[1 ..< min (2::nat) 2] = [1]"
  by (simp_all add: upt_rec)

lemma basic_u_iax:
  "basic_loop_u [304, 97, 120] [(0, 105), (2, 97)] [] = Inr [[304, 97, 52], [49, 97, 120]]"
  by (simp add: leet_map_u_i leet_map_u_a range_one_two set_item_def chars_of_u_def)

lemma basic_u_ib:
  "basic_loop_u [304, 98] [(0, 105), (2, 98)] [] = Inl IndexError"
  by (simp add: leet_map_u_i leet_map_u_b range_one_two set_item_def chars_of_u_def)

text \<open>
  Claim C5 on the program. For the word U+0130 \<^verbatim>\<open>ax\<close> (code points 304, 97, 120),
  whose lower case is \<^verbatim>\<open>i\<close>, U+0307, \<^verbatim>\<open>a\<close>, \<^verbatim>\<open>x\<close>, the call that is not aggressive
  returns the word, the word with its first character replaced by \<^verbatim>\<open>1\<close>, and the word
  with its last character \<^verbatim>\<open>x\<close> replaced by \<^verbatim>\<open>4\<close>: \<^verbatim>\<open>x\<close> is no key of the table, and the
  \<^verbatim>\<open>a\<close> at index 1, which is a key, has no variant. For the word U+0130 \<^verbatim>\<open>b\<close> the call
  raises \<^verbatim>\<open>IndexError\<close>. So the claim does not hold for every word.
\<close>

theorem leet_variants_lowercase_shift:
  assumes "lower_of [304, 97, 120] = [105, 775, 97, 120]"
    and "lower_of [304, 98] = [105, 775, 98]"
  shows "(\<exists>r. leet_variants_u lower_of [304, 97, 120] False cap = Inr r \<and>
            set r = {[304, 97, 120], [49, 97, 120], [304, 97, 52]}) \<and>
         \<not> in_leet_map_u 120 \<and> in_leet_map_u 97 \<and>
         leet_variants_u lower_of [304, 98] False cap = Inl IndexError"
proof -
  have a: "leet_variants_u lower_of [304, 97, 120] False cap
             = Inr (List.union [[304, 97, 120]] [[304, 97, 52], [49, 97, 120]])"
    using positions_u_iax[of lower_of] assms(1)
    by (simp add: leet_variants_u_def basic_u_iax del: basic_loop_u.simps)
  have b: "leet_variants_u lower_of [304, 98] False cap = Inl IndexError"
    using positions_u_ib[of lower_of] assms(2)
    by (simp add: leet_variants_u_def basic_u_ib del: basic_loop_u.simps)
  have "set (List.union [[304, 97, 120]] [[304, 97, 52], [49, 97, 120 :: nat]])
          = {[304, 97, 120], [49, 97, 120], [304, 97, 52]}"
    by auto
  with a b x_no_key key_a show ?thesis by blast
qed

theorem leet_variants_lowercase_shift_witness:
  "dotted_I_lower [304, 97, 120] = [105, 775, 97, 120] \<and>
   dotted_I_lower [304, 98] = [105, 775, 98] \<and>
   leet_variants_u dotted_I_lower [304, 98] False 16 = Inl IndexError \<and>
   (\<exists>r. leet_variants_u dotted_I_lower [304, 97, 120] False 16 = Inr r \<and>
        set r = {[304, 97, 120], [49, 97, 120], [304, 97, 52]})"
proof -
  have h1: "dotted_I_lower [304, 97, 120] = [105, 775, 97, 120]"
    by (simp add: dotted_I_lower_def)
  have h2: "dotted_I_lower [304, 98] = [105, 775, 98]"
    by (simp add: dotted_I_lower_def)
  from leet_variants_lowercase_shift[of dotted_I_lower 16] h1 h2 show ?thesis by blast
qed

text \<open>
  On a word of ASCII characters, where \<^verbatim>\<open>str.lower\<close> is the lower case of the first
  model, the second model raises nothing and returns the code points of what the first
  model returns.
\<close>

lemma inj_enc: "inj enc"
  unfolding enc_def by (rule inj_mapI) (rule inj_of_char)

lemma enc_eq_iff: "enc x = enc y \<longleftrightarrow> x = y"
  using inj_enc by (auto dest: injD)

lemma in_leet_map_u_of_char: "in_leet_map_u (of_char c) = in_leet_map c"
  by (simp add: in_leet_map_u_def)

lemma leet_map_u_of_char: "leet_map_u (of_char c) = map enc (leet_map c)"
  by (simp add: leet_map_u_def enc_def)

lemma enumerate_map_snd:
  "enumerate n (map f xs) = map (\<lambda>(i, c). (i, f c)) (enumerate n xs)"
  by (induction xs arbitrary: n) simp_all

lemma positions_u_enc:
  assumes "lower_of (enc word) = enc (lower word)"
  shows "positions_u lower_of (enc word) = map (\<lambda>(i, c). (i, of_char c)) (positions word)"
  unfolding positions_u_def positions_def assms
  by (simp add: enc_def enumerate_map_snd filter_map comp_def split_def in_leet_map_u_of_char)

lemma chars_of_u_enc: "chars_of_u (enc word) = map enc (chars_of word)"
  by (simp add: chars_of_u_def chars_of_def enc_def)

lemma enc_concat: "concat (map enc s) = enc (concat s)"
  by (induction s) (simp_all add: enc_def)

lemma insert_enc: "List.insert (enc x) (map enc xs) = map enc (List.insert x xs)"
  by (auto simp: List.insert_def enc_eq_iff)

lemma subst_loop_u_enc:
  assumes "(i, c) \<in> set (positions word)"
  shows "subst_loop_u (enc word) (i, of_char c) [1 ..< min (length (leet_map_u (of_char c))) 2]
           (map enc produced)
         = Inr (map enc (fold (\<lambda>choice_idx acc. List.insert (single_subst word (i, c) choice_idx) acc)
                  [1 ..< min (length (leet_map c)) 2] produced))"
proof -
  from assms have i: "i < length word" and lm: "in_leet_map c"
    by (auto simp: positions_iff)
  from leet_map_length[OF lm] have len: "2 \<le> length (leet_map c)" .
  then have r: "[1 ..< min (length (leet_map c)) 2] = [1]"
    by (simp add: min_def upt_rec)
  have r': "[1 ..< min (length (leet_map_u (of_char c))) 2] = [1]"
    using r by (simp add: leet_map_u_of_char)
  have n: "leet_map_u (of_char c) ! 1 = enc (leet_map c ! 1)"
    using len by (simp add: leet_map_u_of_char)
  have s: "set_item (chars_of_u (enc word)) i (enc (leet_map c ! 1))
             = Inr (map enc ((chars_of word)[i := leet_map c ! 1]))"
    using i by (simp add: set_item_def chars_of_u_enc chars_of_def map_update)
  show ?thesis
    using r r' n s by (simp add: enc_concat insert_enc single_subst_def)
qed

lemma basic_loop_u_enc:
  assumes "set ps \<subseteq> set (positions word)"
  shows "basic_loop_u (enc word) (map (\<lambda>(i, c). (i, of_char c)) ps) (map enc produced)
           = Inr (map enc (basic_loop word ps produced))"
  using assms
proof (induction ps arbitrary: produced)
  case Nil
  then show ?case by simp
next
  case (Cons p ps)
  obtain i c where p: "p = (i, c)" by (cases p)
  with Cons.prems have m: "(i, c) \<in> set (positions word)" and rest: "set ps \<subseteq> set (positions word)"
    by auto
  show ?case
    unfolding p using subst_loop_u_enc[OF m, of produced] Cons.IH[OF rest]
    by simp
qed

lemma apply_mask_u_enc:
  assumes "list_all valid_choice zs" and "\<forall>z\<in>set zs. fst (fst z) < length s"
  shows "apply_mask_u (map enc s) (map (\<lambda>((i, c), k). ((i, of_char c), k)) zs)
           = Inr (map enc (apply_mask s zs))"
  using assms
proof (induction s zs rule: apply_mask.induct)
  case (1 s)
  then show ?case by simp
next
  case (2 s pos ch choice_idx rest)
  from "2.prems" have v: "in_leet_map ch" "choice_idx < length (leet_map ch)" "pos < length s"
    by (auto simp: valid_choice_def)
  have n: "leet_map_u (of_char ch) ! choice_idx = enc (leet_map ch ! choice_idx)"
    using v(2) by (simp add: leet_map_u_of_char)
  have s: "set_item (map enc s) pos (enc (leet_map ch ! choice_idx))
             = Inr (map enc (s[pos := leet_map ch ! choice_idx]))"
    using v(3) by (simp add: set_item_def map_update)
  have "apply_mask_u (map enc (s[pos := leet_map ch ! choice_idx]))
          (map (\<lambda>((i, c), k). ((i, of_char c), k)) rest)
        = Inr (map enc (apply_mask (s[pos := leet_map ch ! choice_idx]) rest))"
    using "2.prems" by (intro "2.IH") auto
  then show ?case by (simp add: n s)
qed

lemma apply_variant_u_enc:
  assumes "lower_of (enc word) = enc (lower word)"
    and "msk \<in> set (product_lists (rngs word))"
  shows "apply_variant_u lower_of (enc word) msk = Inr (enc (apply_variant word msk))"
proof -
  have z: "zip (map (\<lambda>(i, c). (i, of_char c)) (positions word)) msk
             = map (\<lambda>((i, c), k). ((i, of_char c), k)) (zip (positions word) msk)"
    by (simp add: zip_map1 case_prod_beta)
  have r: "\<forall>z\<in>set (zip (positions word) msk). fst (fst z) < length (chars_of word)"
  proof
    fix z assume "z \<in> set (zip (positions word) msk)"
    then have "(fst z, snd z) \<in> set (zip (positions word) msk)" by simp
    then have "fst z \<in> set (positions word)" by (rule set_zip_leftD)
    then have "(fst (fst z), snd (fst z)) \<in> set (positions word)" by simp
    then have "fst (fst z) < length word" unfolding positions_iff by (rule conjunct1)
    then show "fst (fst z) < length (chars_of word)" by (simp add: chars_of_def)
  qed
  show ?thesis
    unfolding apply_variant_u_def positions_u_enc[of lower_of word, OF assms(1)] chars_of_u_enc z
      apply_mask_u_enc[OF mask_valid[OF assms(2)] r]
    by (simp add: apply_variant_def enc_concat)
qed

lemma aggressive_loop_u_enc:
  assumes "lower_of (enc word) = enc (lower word)"
    and "set masks \<subseteq> set (product_lists (rngs word))"
  shows "aggressive_loop_u lower_of (enc word) cap masks (map enc produced)
           = Inr (map enc (aggressive_loop word cap masks produced))"
  using assms(2)
proof (induction masks arbitrary: produced)
  case Nil
  then show ?case by simp
next
  case (Cons msk masks)
  then have m: "msk \<in> set (product_lists (rngs word))"
    and rest: "set masks \<subseteq> set (product_lists (rngs word))" by auto
  show ?case
    using Cons.IH[OF rest, of "List.insert (apply_variant word msk) produced"]
    by (simp add: apply_variant_u_enc[of lower_of word, OF assms(1) m] insert_enc Let_def)
qed

lemma rngs_u_enc:
  assumes "lower_of (enc word) = enc (lower word)"
  shows "rngs_u lower_of (enc word) = rngs word"
  unfolding rngs_u_def rngs_def positions_u_enc[of lower_of word, OF assms]
  by (simp add: case_prod_beta leet_map_u_of_char)

lemma leet_variants_u_ascii:
  assumes "lower_of (enc word) = enc (lower word)"
  shows "leet_variants_u lower_of (enc word) aggressive cap
           = Inr (map enc (leet_variants word aggressive cap))"
proof (cases "positions word = []")
  case True
  then show ?thesis
    by (simp add: leet_variants_u_def leet_variants_def positions_u_enc[of lower_of word, OF assms])
next
  case False
  have b: "basic_loop_u (enc word) (map (\<lambda>(i, c). (i, of_char c)) (positions word)) []
             = Inr (map enc (basic_loop word (positions word) []))"
    using basic_loop_u_enc[of "positions word" word "[]"] by simp
  have a: "aggressive_loop_u lower_of (enc word) cap (product_lists (rngs word)) []
             = Inr (map enc (aggressive_loop word cap (product_lists (rngs word)) []))"
    using aggressive_loop_u_enc[of lower_of word "product_lists (rngs word)" cap "[]", OF assms] by simp
  have u: "List.union [enc word] (map enc produced) = map enc (List.union [word] produced)"
    for produced by (simp add: List.union_def insert_enc)
  from False show ?thesis
    unfolding leet_variants_u_def leet_variants_def produced_of_def positions_u_enc[of lower_of word, OF assms]
      rngs_u_enc[of lower_of word, OF assms]
    by (simp add: a b u del: basic_loop_u.simps aggressive_loop_u.simps)
qed

end
